theory Spec2Isabelle
  imports Complex_Main "HOL-Library.AList" "HOL-Library.Sublist" "HOL-Library.Product_Lexorder"
begin

section \<open>Common conventions\<close>

text \<open>
  The development embeds the orchestration core of the sub-agent scheduler
  (\<^verbatim>\<open>src/skills/subagent-scheduler\<close> and the result aggregator in
  \<^verbatim>\<open>src/unnamed/part_009\<close>).

  \<^item> JavaScript strings are \<^typ>\<open>string\<close>; identifiers of subtasks, agents, tiers and tasks
    are such strings.
  \<^item> A \<^verbatim>\<open>Map\<close>, and the own properties of an object used as a dictionary, are
    association lists in insertion order, written with \<^const>\<open>AList.update\<close> (replace in
    place or append) and \<^const>\<open>map_of\<close>. The section on \<^verbatim>\<open>buildDAG\<close> adds the key
    order of \<^verbatim>\<open>Object.keys\<close> and the prototype of a plain object.
  \<^item> A thrown exception is the left injection of a sum; an object that reports
    \<^verbatim>\<open>success: false\<close> is an ordinary value.
  \<^item> Event emission and console logging have no effect on any value computed here and are
    left out.
  \<^item> Numbers that the source only compares or divides (confidences, load ratios, vote shares)
    are rationals.
\<close>

text \<open>
  The errors thrown: a TypeError of the runtime, and the \<^verbatim>\<open>Error\<close> objects of the source,
  one constructor for each message the source builds (\<open>Error\<close> carries any other message).
\<close>

datatype exn =
    TypeError
  | Error string
  | NoAgentAvailable
  | CannotSelectAgent
  | FallbackFailed
  | SlotTimeout string

definition digit_char :: "nat \<Rightarrow> char" where
  "digit_char n = ''0123456789'' ! n"

text \<open>The decimal numeral a template literal prints for a non-negative integer.\<close>

fun show_nat :: "nat \<Rightarrow> string" where
  "show_nat n = (if n < 10 then [digit_char n] else show_nat (n div 10) @ [digit_char (n mod 10)])"

declare show_nat.simps [simp del]

text \<open>\<^verbatim>\<open>Array.prototype.join\<close> on strings.\<close>

fun join :: "string \<Rightarrow> string list \<Rightarrow> string" where
  "join sep [] = []"
| "join sep [x] = x"
| "join sep (x # y # ys) = x @ sep @ join sep (y # ys)"

section \<open>Result aggregator (\<^verbatim>\<open>ResultAggregator\<close>)\<close>

datatype AggregationStrategy =
  CONCAT | SMART_MERGE | VOTE | PRIORITY | SUMMARIZE | UNKNOWN_STRATEGY string

record summary =
  keyPoints :: "string list"
  totalSentences :: nat
  charCount :: nat

text \<open>
  A result payload is any JavaScript value. The aggregator only asks whether it is a string,
  whether \<^verbatim>\<open>typeof\<close> gives \<^verbatim>\<open>'object'\<close>, and otherwise hands it to
  \<^verbatim>\<open>JSON.stringify\<close> or \<^verbatim>\<open>String\<close>. \<open>PSummary\<close> is the object
  \<^verbatim>\<open>{summary, fullText, originalTask}\<close> that the summarize strategy builds.
\<close>

datatype 'v payload =
    PUndefined
  | PString string
  | PObject 'v
  | PPrim 'v
  | PSummary summary string string

record meta =
  agentName :: "string option"
  confidence :: "rat option"

text \<open>
  One entry of the list handed to \<^verbatim>\<open>aggregate\<close>. The aggregator reads the fields
  \<^verbatim>\<open>subtaskId\<close>, \<^verbatim>\<open>result\<close> and \<^verbatim>\<open>metadata\<close> of an entry and nothing
  else; an absent field is \<open>None\<close> (\<open>PUndefined\<close> for the payload).
\<close>

record 'v entry =
  subtaskId :: "string option"
  result :: "'v payload"
  metadata :: "meta option"

text \<open>
  Library functions of the JavaScript runtime that the aggregator calls, taken as parameters:
  \<^verbatim>\<open>JSON.stringify(v)\<close> and \<^verbatim>\<open>JSON.stringify(v, null, 2)\<close> (both give
  \<^verbatim>\<open>undefined\<close>, here \<open>None\<close>, for values with no JSON text), \<^verbatim>\<open>String(v)\<close>,
  \<^verbatim>\<open>s.toLowerCase().split(/\s+/)\<close>, the regular-expression split into sentences,
  \<^verbatim>\<open>s.trim()\<close>, and the list of keywords of \<^verbatim>\<open>extractKeyPoints\<close>.
\<close>

record 'v runtime =
  JSON_stringify :: "'v payload \<Rightarrow> string option"
  JSON_stringify_indent :: "'v payload \<Rightarrow> string option"
  String_of :: "'v payload \<Rightarrow> string"
  lower_words :: "string \<Rightarrow> string list"
  split_sentences :: "string \<Rightarrow> string list"
  trim :: "string \<Rightarrow> string"
  summary_keywords :: "string list"

datatype agg_error = NoResultsToAggregate

text \<open>
  The object \<^verbatim>\<open>aggregate\<close> returns, one constructor for each shape the source builds:
  \<^item> \<open>AggFailure\<close>: \<^verbatim>\<open>{success: false, error}\<close>;
  \<^item> \<open>AggSingle r m\<close>: \<^verbatim>\<open>{success: true, result: r, source: 'single', metadata: m}\<close>;
  \<^item> \<open>AggConcat s n\<close>: \<^verbatim>\<open>{success: true, result: s, source: 'concat', count: n}\<close>;
  \<^item> \<open>AggSmartMerge s n u c\<close>: source \<^verbatim>\<open>'smart_merge'\<close> with \<^verbatim>\<open>count\<close>,
    \<^verbatim>\<open>uniqueCount\<close>, \<^verbatim>\<open>conflictCount\<close>;
  \<^item> \<open>AggVote r c d\<close>: source \<^verbatim>\<open>'vote'\<close> with \<^verbatim>\<open>confidence\<close> and
    \<^verbatim>\<open>voteDistribution\<close>;
  \<^item> \<open>AggPriority r s\<close>: source \<^verbatim>\<open>'priority'\<close> with \<^verbatim>\<open>selectedFrom\<close>;
  \<^item> \<open>AggSummarize r n\<close>: source \<^verbatim>\<open>'summarize'\<close> with \<^verbatim>\<open>count\<close>.
\<close>

datatype 'v aggregated =
    AggFailure agg_error
  | AggSingle "'v payload" "meta option"
  | AggConcat string nat
  | AggSmartMerge string nat nat nat
  | AggVote "'v payload" rat "(string \<times> nat) list"
  | AggPriority "'v payload" "string option"
  | AggSummarize "'v payload" nat

fun agg_success :: "'v aggregated \<Rightarrow> bool" where
  "agg_success (AggFailure e) = False"
| "agg_success r = True"

text \<open>The \<^verbatim>\<open>result\<close> field of the returned object; the failure object has none.\<close>

fun agg_result :: "'v aggregated \<Rightarrow> 'v payload" where
  "agg_result (AggFailure e) = PUndefined"
| "agg_result (AggSingle r m) = r"
| "agg_result (AggConcat s n) = PString s"
| "agg_result (AggSmartMerge s n u c) = PString s"
| "agg_result (AggVote r c d) = r"
| "agg_result (AggPriority r s) = r"
| "agg_result (AggSummarize r n) = r"

fun agg_metadata :: "'v aggregated \<Rightarrow> meta option" where
  "agg_metadata (AggSingle r m) = m"
| "agg_metadata r = None"

text \<open>
  A returned object read back as an entry of a results list, as in
  \<^verbatim>\<open>aggregate([finalResult])\<close>: it has a \<^verbatim>\<open>result\<close>, no \<^verbatim>\<open>subtaskId\<close>,
  and a \<^verbatim>\<open>metadata\<close> only when it came from the single-entry path.
\<close>

definition as_entry :: "'v aggregated \<Rightarrow> 'v entry" where
  "as_entry f = \<lparr>subtaskId = None, result = agg_result f, metadata = agg_metadata f\<rparr>"

definition is_string :: "'v payload \<Rightarrow> bool" where
  "is_string p = (case p of PString s \<Rightarrow> True | _ \<Rightarrow> False)"

text \<open>\<^verbatim>\<open>typeof p === 'object'\<close>.\<close>

definition is_object :: "'v payload \<Rightarrow> bool" where
  "is_object p = (case p of PObject v \<Rightarrow> True | PSummary s f t \<Rightarrow> True | _ \<Rightarrow> False)"

text \<open>
  \<^verbatim>\<open>typeof r.result === 'string' ? r.result : JSON.stringify(r.result)\<close>, the key used by
  \<^verbatim>\<open>deduplicate\<close>, \<^verbatim>\<open>aggregateByVote\<close> and \<^verbatim>\<open>aggregateBySummarize\<close>.
\<close>

definition content_key :: "'v runtime \<Rightarrow> 'v payload \<Rightarrow> string option" where
  "content_key rt p = (case p of PString s \<Rightarrow> Some s | _ \<Rightarrow> JSON_stringify rt p)"

text \<open>An element of an array as \<^verbatim>\<open>join\<close> prints it: \<^verbatim>\<open>undefined\<close> is the empty string.\<close>

definition joined_text :: "string option \<Rightarrow> string" where
  "joined_text t = (case t of None \<Rightarrow> [] | Some s \<Rightarrow> s)"

definition concat_separator :: string where
  "concat_separator = [CHR 0x0A, CHR 0x0A] @ ''---'' @ [CHR 0x0A, CHR 0x0A]"

definition aggregateByConcat :: "'v runtime \<Rightarrow> 'v entry list \<Rightarrow> 'v aggregated" where
  "aggregateByConcat rt results =
     (let texts = map (\<lambda>r.
            if is_string (result r) then content_key rt (result r)
            else if is_object (result r) then JSON_stringify rt (result r)
            else Some (String_of rt (result r))) results
      in AggConcat (join concat_separator (map joined_text texts)) (length results))"

text \<open>\<^verbatim>\<open>deduplicate\<close>: keep the first entry of every content key.\<close>

fun dedup_from :: "'v runtime \<Rightarrow> string option list \<Rightarrow> 'v entry list \<Rightarrow> 'v entry list" where
  "dedup_from rt seen [] = []"
| "dedup_from rt seen (r # rs) =
     (let k = content_key rt (result r)
      in if k \<in> set seen then dedup_from rt seen rs else r # dedup_from rt (seen @ [k]) rs)"

definition deduplicate :: "'v runtime \<Rightarrow> 'v entry list \<Rightarrow> 'v entry list" where
  "deduplicate rt results = dedup_from rt [] results"

text \<open>
  \<^verbatim>\<open>calculateSimilarity\<close>: the share of common lower-case words. A payload whose JSON
  text is \<^verbatim>\<open>undefined\<close> makes \<^verbatim>\<open>strA.toLowerCase()\<close> throw a TypeError.
\<close>

definition calculateSimilarity :: "'v runtime \<Rightarrow> 'v payload \<Rightarrow> 'v payload \<Rightarrow> exn + rat" where
  "calculateSimilarity rt a b =
     (case content_key rt a of None \<Rightarrow> Inl TypeError
      | Some strA \<Rightarrow>
        (case content_key rt b of None \<Rightarrow> Inl TypeError
         | Some strB \<Rightarrow>
           (let wordsA = set (lower_words rt strA); wordsB = set (lower_words rt strB)
            in Inr (of_nat (card (wordsA \<inter> wordsB)) / of_nat (card (wordsA \<union> wordsB))))))"

text \<open>
  \<^verbatim>\<open>detectConflicts\<close>: the inner loop over \<open>j > i\<close> and the outer loop over \<open>i\<close>; the
  value is the list of conflicting id pairs with their similarity, or the exception.
\<close>

fun conflicts_with ::
  "'v runtime \<Rightarrow> rat \<Rightarrow> 'v entry \<Rightarrow> 'v entry list \<Rightarrow> exn + (string option \<times> string option \<times> rat) list" where
  "conflicts_with rt threshold ri [] = Inr []"
| "conflicts_with rt threshold ri (rj # rs) =
     (case calculateSimilarity rt (result ri) (result rj) of Inl e \<Rightarrow> Inl e
      | Inr similarity \<Rightarrow>
        (case conflicts_with rt threshold ri rs of Inl e \<Rightarrow> Inl e
         | Inr cs \<Rightarrow>
           Inr (if similarity > 3 / 10 \<and> similarity < threshold
                then (subtaskId ri, subtaskId rj, similarity) # cs else cs)))"

fun detectConflicts ::
  "'v runtime \<Rightarrow> rat \<Rightarrow> 'v entry list \<Rightarrow> exn + (string option \<times> string option \<times> rat) list" where
  "detectConflicts rt threshold [] = Inr []"
| "detectConflicts rt threshold (ri # rs) =
     (case conflicts_with rt threshold ri rs of Inl e \<Rightarrow> Inl e
      | Inr cs \<Rightarrow>
        (case detectConflicts rt threshold rs of Inl e \<Rightarrow> Inl e | Inr ds \<Rightarrow> Inr (cs @ ds)))"

text \<open>\<^verbatim>\<open>a.metadata?.confidence || 0.5\<close>: absent and zero both give one half.\<close>

definition confidence_of :: "'v entry \<Rightarrow> rat" where
  "confidence_of r =
     (case metadata r of None \<Rightarrow> 1 / 2
      | Some m \<Rightarrow> (case confidence m of None \<Rightarrow> 1 / 2 | Some c \<Rightarrow> if c = 0 then 1 / 2 else c))"

text \<open>
  \<^verbatim>\<open>resolveConflicts\<close> sorts by descending confidence and ignores the conflicts; the sort of
  the runtime is stable, as \<^const>\<open>sort_key\<close> is.
\<close>

definition resolveConflicts :: "'v entry list \<Rightarrow> 'c \<Rightarrow> 'v entry list" where
  "resolveConflicts results conflicts = sort_key (\<lambda>r. - confidence_of r) results"

definition section_of :: "'v runtime \<Rightarrow> nat \<Rightarrow> 'v entry \<Rightarrow> string" where
  "section_of rt index r =
     (let name = (case metadata r of None \<Rightarrow> ''Agent''
                  | Some m \<Rightarrow> (case agentName m of None \<Rightarrow> ''Agent''
                              | Some n \<Rightarrow> if n = [] then ''Agent'' else n));
          header = ''['' @ name @ '' '' @ show_nat (index + 1) @ '']'';
          content = (case result r of PString s \<Rightarrow> s
                     | p \<Rightarrow> (case JSON_stringify_indent rt p of None \<Rightarrow> ''undefined''
                             | Some s \<Rightarrow> s))
      in header @ [CHR 0x0A] @ content)"

definition mergeTexts :: "'v runtime \<Rightarrow> 'v entry list \<Rightarrow> string" where
  "mergeTexts rt results =
     join concat_separator (map (\<lambda>(index, r). section_of rt index r) (enumerate 0 results))"

definition aggregateBySmartMerge :: "'v runtime \<Rightarrow> rat \<Rightarrow> 'v entry list \<Rightarrow> exn + 'v aggregated" where
  "aggregateBySmartMerge rt threshold results =
     (let uniqueResults = deduplicate rt results
      in case detectConflicts rt threshold uniqueResults of Inl e \<Rightarrow> Inl e
         | Inr conflicts \<Rightarrow>
           (let resolved = resolveConflicts uniqueResults conflicts;
                merged = mergeTexts rt resolved
            in Inr (AggSmartMerge merged (length results) (length uniqueResults) (length conflicts))))"

text \<open>
  \<^verbatim>\<open>aggregateByVote\<close>: the \<^verbatim>\<open>Map\<close> of votes in insertion order, each key with the
  entries that voted for it.
\<close>

fun cast_votes ::
  "'v runtime \<Rightarrow> 'v entry list \<Rightarrow> (string option \<times> 'v entry list) list
     \<Rightarrow> (string option \<times> 'v entry list) list" where
  "cast_votes rt [] votes = votes"
| "cast_votes rt (r # rs) votes =
     (let key = content_key rt (result r);
          old = (case map_of votes key of None \<Rightarrow> [] | Some es \<Rightarrow> es)
      in cast_votes rt rs (AList.update key (old @ [r]) votes))"

text \<open>The loop that keeps the first key with strictly more votes than all before it.\<close>

fun pick_winner ::
  "(string option \<times> 'v entry list) list \<Rightarrow> 'v entry option \<Rightarrow> nat \<Rightarrow> 'v entry option \<times> nat" where
  "pick_winner [] winner maxVotes = (winner, maxVotes)"
| "pick_winner ((key, es) # vs) winner maxVotes =
     (if length es > maxVotes
      then pick_winner vs (case es of [] \<Rightarrow> None | e # _ \<Rightarrow> Some e) (length es)
      else pick_winner vs winner maxVotes)"

definition aggregateByVote :: "'v runtime \<Rightarrow> 'v entry list \<Rightarrow> exn + 'v aggregated" where
  "aggregateByVote rt results =
     (let votes = cast_votes rt results [];
          (winner, maxVotes) = pick_winner votes None 0
      in case winner of None \<Rightarrow> Inl TypeError
         | Some w \<Rightarrow>
           if None \<in> fst ` set votes then Inl TypeError
           else Inr (AggVote (result w) (of_nat maxVotes / of_nat (length results))
                       (map (\<lambda>(k, es). (take 100 (joined_text k), length es)) votes)))"

text \<open>
  \<^verbatim>\<open>aggregateByPriority\<close>: \<^verbatim>\<open>priorities[a.subtaskId] || 0\<close>, where an absent id reads
  the key \<^verbatim>\<open>"undefined"\<close>; a stable sort by descending priority; the first entry wins.
\<close>

definition priority_of :: "(string \<rightharpoonup> rat) \<Rightarrow> 'v entry \<Rightarrow> rat" where
  "priority_of priorities r =
     (case priorities (case subtaskId r of None \<Rightarrow> ''undefined'' | Some i \<Rightarrow> i) of
        None \<Rightarrow> 0 | Some p \<Rightarrow> p)"

definition aggregateByPriority :: "'v entry list \<Rightarrow> (string \<rightharpoonup> rat) \<Rightarrow> exn + 'v aggregated" where
  "aggregateByPriority results priorities =
     (case sort_key (\<lambda>r. - priority_of priorities r) results of
        [] \<Rightarrow> Inl TypeError
      | r # _ \<Rightarrow> Inr (AggPriority (result r) (subtaskId r)))"

definition extractKeyPoints :: "'v runtime \<Rightarrow> string \<Rightarrow> summary" where
  "extractKeyPoints rt txt =
     (let sentences = filter (\<lambda>s. length (trim rt s) > 10) (split_sentences rt txt);
          keySentences = filter (\<lambda>s. \<exists>k \<in> set (summary_keywords rt). sublist k s) sentences
      in \<lparr>keyPoints = take 5 keySentences, totalSentences = length sentences,
          charCount = length txt\<rparr>)"

definition aggregateBySummarize :: "'v runtime \<Rightarrow> 'v entry list \<Rightarrow> string \<Rightarrow> 'v aggregated" where
  "aggregateBySummarize rt results originalTask =
     (let fullText = join [CHR 0x0A, CHR 0x0A]
                       (map (\<lambda>r. joined_text (content_key rt (result r))) results);
          summary = extractKeyPoints rt fullText
      in AggSummarize (PSummary summary (take 5000 fullText @ ''...'') originalTask)
           (length results))"

text \<open>
  The aggregator object: its default strategy (\<^verbatim>\<open>options.strategy || 'smart_merge'\<close>) and
  its conflict threshold (\<^verbatim>\<open>options.conflictThreshold || 0.8\<close>).
\<close>

record aggregator =
  strategy :: AggregationStrategy
  conflictThreshold :: rat

definition default_aggregator :: aggregator where
  "default_aggregator = \<lparr>strategy = SMART_MERGE, conflictThreshold = 8 / 10\<rparr>"

text \<open>The \<^verbatim>\<open>options\<close> argument of \<^verbatim>\<open>aggregate\<close>; absent keys are \<open>None\<close>.\<close>

record aggregate_options =
  opt_strategy :: "AggregationStrategy option"
  opt_originalTask :: "string option"
  opt_priorities :: "(string \<rightharpoonup> rat) option"

definition no_options :: aggregate_options where
  "no_options = \<lparr>opt_strategy = None, opt_originalTask = None, opt_priorities = None\<rparr>"

text \<open>
  \<^verbatim>\<open>aggregate(results, options)\<close>. The list is \<open>None\<close> when the caller passes
  \<^verbatim>\<open>undefined\<close> or \<^verbatim>\<open>null\<close>.
\<close>

definition aggregate ::
  "'v runtime \<Rightarrow> aggregator \<Rightarrow> 'v entry list option \<Rightarrow> aggregate_options \<Rightarrow> exn + 'v aggregated" where
  "aggregate rt self results options =
     (let strat = (case opt_strategy options of None \<Rightarrow> strategy self | Some s \<Rightarrow> s);
          originalTask = (case opt_originalTask options of None \<Rightarrow> [] | Some t \<Rightarrow> t)
      in case results of
           None \<Rightarrow> Inr (AggFailure NoResultsToAggregate)
         | Some [] \<Rightarrow> Inr (AggFailure NoResultsToAggregate)
         | Some [r] \<Rightarrow> Inr (AggSingle (result r) (metadata r))
         | Some rs \<Rightarrow>
             (case strat of
                CONCAT \<Rightarrow> Inr (aggregateByConcat rt rs)
              | SMART_MERGE \<Rightarrow> aggregateBySmartMerge rt (conflictThreshold self) rs
              | VOTE \<Rightarrow> aggregateByVote rt rs
              | PRIORITY \<Rightarrow>
                  aggregateByPriority rs
                    (case opt_priorities options of None \<Rightarrow> Map.empty | Some p \<Rightarrow> p)
              | SUMMARIZE \<Rightarrow> Inr (aggregateBySummarize rt rs originalTask)
              | UNKNOWN_STRATEGY s \<Rightarrow> Inr (aggregateByConcat rt rs)))"

text \<open>The strategy \<^verbatim>\<open>aggregate\<close> dispatches on: the option if given, else the aggregator's own.\<close>

definition effective_strategy :: "aggregator \<Rightarrow> aggregate_options \<Rightarrow> AggregationStrategy" where
  "effective_strategy self options =
     (case opt_strategy options of None \<Rightarrow> strategy self | Some s \<Rightarrow> s)"

text \<open>A concrete runtime and a concrete results list, used to run the aggregator.\<close>

definition example_runtime :: "unit runtime" where
  "example_runtime =
     \<lparr>JSON_stringify = (\<lambda>p. case p of PUndefined \<Rightarrow> None | _ \<Rightarrow> Some ''{}''),
      JSON_stringify_indent = (\<lambda>p. case p of PUndefined \<Rightarrow> None | _ \<Rightarrow> Some ''{}''),
      String_of = (\<lambda>p. ''undefined''),
      lower_words = (\<lambda>s. [s]), split_sentences = (\<lambda>s. [s]), trim = (\<lambda>s. s),
      summary_keywords = []\<rparr>"

definition example_results :: "unit entry list" where
  "example_results =
     [\<lparr>subtaskId = Some ''a'', result = PString ''alpha'', metadata = None\<rparr>,
      \<lparr>subtaskId = Some ''b'', result = PString ''beta'',
        metadata = Some \<lparr>agentName = Some ''W'', confidence = Some (9 / 10)\<rparr>\<rparr>,
      \<lparr>subtaskId = Some ''c'', result = PString ''alpha'', metadata = None\<rparr>]"

section \<open>Admission control (\<^verbatim>\<open>redis-concurrency.js\<close>)\<close>

text \<open>The table \<^verbatim>\<open>this.limits\<close>, the same in both controllers.\<close>

definition limits :: "string \<rightharpoonup> nat" where
  "limits = map_of [(''Simple'', 10), (''Standard'', 4), (''Batch'', 2),
                    (''Orchestrator'', 2), (''Deep'', 1)]"

text \<open>
  A \<^verbatim>\<open>Set\<close> of task ids (and a Redis set) is the list of its members in insertion order,
  without repetition: \<^verbatim>\<open>add\<close>/\<^verbatim>\<open>sadd\<close> and \<^verbatim>\<open>delete\<close>/\<^verbatim>\<open>srem\<close>.
\<close>

definition set_add :: "string \<Rightarrow> string list \<Rightarrow> string list" where
  "set_add x xs = (if x \<in> set xs then xs else xs @ [x])"

definition set_delete :: "string \<Rightarrow> string list \<Rightarrow> string list" where
  "set_delete x xs = removeAll x xs"

subsection \<open>\<^verbatim>\<open>LocalConcurrencyController\<close>\<close>

text \<open>
  \<^verbatim>\<open>this.slots\<close>, a \<^verbatim>\<open>Map\<close> from tier to the set of task ids that hold a slot. The
  methods are \<^verbatim>\<open>async\<close> but contain no \<^verbatim>\<open>await\<close>: each call runs to completion
  before any other code of the single-threaded runtime, so a call is one step on the table.
  For a tier that is not in the table of limits the comparison \<^verbatim>\<open>slot.size < undefined\<close>
  is false.
\<close>

type_synonym slot_table = "string \<rightharpoonup> string list"

definition local_acquireSlot :: "slot_table \<Rightarrow> string \<Rightarrow> string \<Rightarrow> bool \<times> slot_table" where
  "local_acquireSlot slots branch taskId =
     (let slots1 = (case slots branch of None \<Rightarrow> slots(branch \<mapsto> []) | Some s \<Rightarrow> slots);
          slot = (case slots1 branch of None \<Rightarrow> [] | Some s \<Rightarrow> s)
      in case limits branch of
           None \<Rightarrow> (False, slots1)
         | Some limit \<Rightarrow>
             if length slot < limit then (True, slots1(branch \<mapsto> set_add taskId slot))
             else (False, slots1))"

definition local_releaseSlot :: "slot_table \<Rightarrow> string \<Rightarrow> string \<Rightarrow> slot_table" where
  "local_releaseSlot slots branch taskId =
     (case slots branch of None \<Rightarrow> slots
      | Some slot \<Rightarrow> slots(branch \<mapsto> set_delete taskId slot))"

definition local_getCurrentConcurrency :: "slot_table \<Rightarrow> string \<Rightarrow> nat" where
  "local_getCurrentConcurrency slots branch =
     (case slots branch of None \<Rightarrow> 0 | Some slot \<Rightarrow> length slot)"

subsection \<open>\<^verbatim>\<open>RedisConcurrencyController\<close>\<close>

text \<open>
  The Redis server as far as the controller uses it: a set of task ids under every key, empty
  for a key that does not exist. \<^verbatim>\<open>acquireSlot\<close> sends one Lua script, which the server
  runs as one indivisible step: \<^verbatim>\<open>scard\<close>, the comparison and \<^verbatim>\<open>sadd\<close>. The limit
  is \<^verbatim>\<open>this.limits[branch] || 1\<close>. The one-hour expiry that the script sets on the key can
  only empty a set and is left out.
\<close>

type_synonym redis = "string \<Rightarrow> string list"

definition prefix_key :: "string \<Rightarrow> string" where
  "prefix_key branch = ''subagent:concurrency:'' @ branch"

definition redis_acquireSlot :: "redis \<Rightarrow> string \<Rightarrow> string \<Rightarrow> bool \<times> redis" where
  "redis_acquireSlot store branch taskId =
     (let key = prefix_key branch;
          limit = (case limits branch of None \<Rightarrow> 1 | Some n \<Rightarrow> if n = 0 then 1 else n);
          current = length (store key)
      in if current < limit then (True, store(key := set_add taskId (store key)))
         else (False, store))"

definition redis_releaseSlot :: "redis \<Rightarrow> string \<Rightarrow> string \<Rightarrow> redis" where
  "redis_releaseSlot store branch taskId =
     (let key = prefix_key branch in store(key := set_delete taskId (store key)))"

definition redis_getCurrentConcurrency :: "redis \<Rightarrow> string \<Rightarrow> nat" where
  "redis_getCurrentConcurrency store branch = length (store (prefix_key branch))"

subsection \<open>Sequences of calls\<close>

text \<open>
  Calls issued concurrently take effect one after another, in some order: a history is a list
  of calls in the order in which they take effect.
\<close>

datatype slot_op = Acquire string string | Release string string

fun local_apply :: "slot_table \<Rightarrow> slot_op \<Rightarrow> slot_table" where
  "local_apply slots (Acquire branch taskId) = snd (local_acquireSlot slots branch taskId)"
| "local_apply slots (Release branch taskId) = local_releaseSlot slots branch taskId"

fun redis_apply :: "redis \<Rightarrow> slot_op \<Rightarrow> redis" where
  "redis_apply store (Acquire branch taskId) = snd (redis_acquireSlot store branch taskId)"
| "redis_apply store (Release branch taskId) = redis_releaseSlot store branch taskId"

text \<open>The answers to a burst of \<^verbatim>\<open>acquireSlot\<close> calls for one tier.\<close>

fun local_acquire_all :: "slot_table \<Rightarrow> string \<Rightarrow> string list \<Rightarrow> bool list" where
  "local_acquire_all slots branch [] = []"
| "local_acquire_all slots branch (t # ts) =
     (let (ok, slots') = local_acquireSlot slots branch t
      in ok # local_acquire_all slots' branch ts)"

fun redis_acquire_all :: "redis \<Rightarrow> string \<Rightarrow> string list \<Rightarrow> bool list" where
  "redis_acquire_all store branch [] = []"
| "redis_acquire_all store branch (t # ts) =
     (let (ok, store') = redis_acquireSlot store branch t
      in ok # redis_acquire_all store' branch ts)"

definition successes :: "bool list \<Rightarrow> nat" where
  "successes bs = length (filter (\<lambda>b. b) bs)"

definition local_bounded :: "slot_table \<Rightarrow> bool" where
  "local_bounded slots =
     (\<forall>b n. limits b = Some n \<longrightarrow> local_getCurrentConcurrency slots b \<le> n)"

definition redis_bounded :: "redis \<Rightarrow> bool" where
  "redis_bounded store =
     (\<forall>b n. limits b = Some n \<longrightarrow> redis_getCurrentConcurrency store b \<le> n)"

section \<open>Strategy downgrade (\<^verbatim>\<open>RetryExecutor.downgradeAndRetry\<close>)\<close>

text \<open>
  The execution context handed to the retried operation: the tier and the two fields that
  \<^verbatim>\<open>downgradeAndRetry\<close> adds.
\<close>

record retry_context =
  branch :: string
  downgraded :: bool
  originalBranch :: "string option"

text \<open>
  What \<^verbatim>\<open>downgradeAndRetry\<close> returns: \<open>CannotDowngrade b\<close> is
  \<^verbatim>\<open>{success: false, error: Error(b), reason}\<close> for a tier \<open>b\<close> with no entry in the
  chain, \<open>Downgraded r f t\<close> is \<^verbatim>\<open>{success: true, result: r, downgraded: true, from: f, to: t}\<close>.
  An error that the operation throws at the last tier is thrown on (\<open>Inl\<close>).
\<close>

datatype 'r downgrade_result =
    CannotDowngrade string
  | Downgraded 'r string string

text \<open>The default of \<^verbatim>\<open>this.downgradeChain\<close> in the constructor.\<close>

definition default_downgradeChain :: "string \<rightharpoonup> string" where
  "default_downgradeChain =
     map_of [(''Deep'', ''Standard''), (''Orchestrator'', ''Standard''),
             (''Batch'', ''Standard''), (''Standard'', ''Simple'')]"

text \<open>\<^verbatim>\<open>this.downgradeChain[b]\<close> as the source tests it: absent and empty are both falsy.\<close>

definition chain_entry :: "(string \<rightharpoonup> string) \<Rightarrow> string \<Rightarrow> string option" where
  "chain_entry chain b =
     (case chain b of None \<Rightarrow> None | Some t \<Rightarrow> if t = [] then None else Some t)"

text \<open>
  The operation \<^verbatim>\<open>fn\<close> is a closure: it reads the context, may change a state of its
  own (type \<open>'s\<close>), and returns or throws. The recursion follows the chain, which is a
  parameter, so nothing bounds it in general: the function is partial, and \<open>None\<close> stands for
  a run that never returns. The list is the log of the \<^verbatim>\<open>downgrade\<close> events emitted,
  each with its \<^verbatim>\<open>from\<close> and \<^verbatim>\<open>to\<close>.
\<close>

partial_function (option) downgradeAndRetry ::
  "(string \<rightharpoonup> string) \<Rightarrow> (retry_context \<Rightarrow> 's \<Rightarrow> (exn + 'r) \<times> 's) \<Rightarrow> retry_context \<Rightarrow> 's
     \<Rightarrow> (string \<times> string) list
     \<Rightarrow> ((exn + 'r downgrade_result) \<times> 's \<times> (string \<times> string) list) option" where
  "downgradeAndRetry chain fn ctx s events =
     (case chain_entry chain (branch ctx) of
        None \<Rightarrow> Some (Inr (CannotDowngrade (branch ctx)), s, events)
      | Some downgradeTo \<Rightarrow>
          (let events1 = events @ [(branch ctx, downgradeTo)];
               downgradedContext = ctx\<lparr>branch := downgradeTo, downgraded := True,
                                       originalBranch := Some (branch ctx)\<rparr>
           in case fn downgradedContext s of
                (Inr r, s1) \<Rightarrow> Some (Inr (Downgraded r (branch ctx) downgradeTo), s1, events1)
              | (Inl e, s1) \<Rightarrow>
                  (case chain_entry chain downgradeTo of
                     Some next_tier \<Rightarrow> downgradeAndRetry chain fn downgradedContext s1 events1
                   | None \<Rightarrow> Some (Inl e, s1, events1))))"

text \<open>A terminal failure: a thrown error or the object with \<^verbatim>\<open>success: false\<close>.\<close>

definition is_failure :: "(exn + 'r downgrade_result) \<Rightarrow> bool" where
  "is_failure out =
     (case out of Inl e \<Rightarrow> True | Inr (CannotDowngrade b) \<Rightarrow> True
      | Inr (Downgraded r f t) \<Rightarrow> False)"

text \<open>An operation that runs out of memory at every tier and counts its calls.\<close>

definition always_fails :: "retry_context \<Rightarrow> nat \<Rightarrow> (exn + unit) \<times> nat" where
  "always_fails c calls = (Inl (Error ''out of memory''), Suc calls)"

section \<open>Subtasks\<close>

text \<open>
  A subtask as the decomposer builds it. The free-text \<^verbatim>\<open>task\<close> description and the
  template indices (\<^verbatim>\<open>batchIndex\<close>, \<^verbatim>\<open>stepIndex\<close>) play no part in DAG
  construction, routing or execution control and are left out. The field \<^verbatim>\<open>id\<close> is
  \<open>st_id\<close>, \<^verbatim>\<open>type\<close> is \<open>st_type\<close>.
\<close>

record subtask =
  st_id :: string
  dependsOn :: "string list"
  estimatedDuration :: "nat option"
  requiredCapabilities :: "string list option"
  st_type :: "string option"

section \<open>Agent registry (\<^verbatim>\<open>AgentRegistry\<close>)\<close>

datatype agent_status = healthy | busy | offline

text \<open>
  A registry entry. \<^verbatim>\<open>metadata.type\<close>, \<^verbatim>\<open>metadata.costPerToken\<close> and
  \<^verbatim>\<open>stats.avgExecutionTime\<close> are the only parts of \<^verbatim>\<open>metadata\<close> and
  \<^verbatim>\<open>stats\<close> that the router and the scheduler read.
\<close>

record agent =
  agentId :: string
  agent_name :: string
  capabilities :: "string list"
  maxConcurrent :: nat
  currentLoad :: nat
  status :: agent_status
  agent_type :: "string option"
  costPerToken :: "rat option"
  avgExecutionTime :: rat

text \<open>\<^verbatim>\<open>this.agents\<close>, a \<^verbatim>\<open>Map\<close> from agent id to entry, in insertion order.\<close>

type_synonym registry = "(string \<times> agent) list"

text \<open>
  \<^verbatim>\<open>register\<close> with a given \<^verbatim>\<open>agentId\<close> (the source draws a random one when none is
  given): defaults for name, capabilities and \<^verbatim>\<open>maxConcurrent || 1\<close>, load zero, healthy.
\<close>

definition register ::
  "registry \<Rightarrow> string \<Rightarrow> string option \<Rightarrow> string list option \<Rightarrow> nat option \<Rightarrow> string option
     \<Rightarrow> registry" where
  "register reg aid nm caps maxc ty =
     AList.update aid
       \<lparr>agentId = aid,
        agent_name = (case nm of None \<Rightarrow> aid | Some n \<Rightarrow> if n = [] then aid else n),
        capabilities = (case caps of None \<Rightarrow> [] | Some cs \<Rightarrow> cs),
        maxConcurrent = (case maxc of None \<Rightarrow> 1 | Some m \<Rightarrow> if m = 0 then 1 else m),
        currentLoad = 0, status = healthy, agent_type = ty, costPerToken = None,
        avgExecutionTime = 0\<rparr> reg"

text \<open>
  \<^verbatim>\<open>updateLoad\<close>: \<^verbatim>\<open>Math.max(0, currentLoad + delta)\<close>, then the status follows the
  load. The entry is changed in place, so it keeps its position.
\<close>

definition updateLoad :: "registry \<Rightarrow> string \<Rightarrow> int \<Rightarrow> bool \<times> registry" where
  "updateLoad reg aid delta =
     (case map_of reg aid of
        None \<Rightarrow> (False, reg)
      | Some a \<Rightarrow>
          (let load = nat (max 0 (int (currentLoad a) + delta));
               st = (if load \<ge> maxConcurrent a then busy
                     else if status a = busy then healthy else status a)
           in (True, AList.update aid (a\<lparr>currentLoad := load, status := st\<rparr>) reg)))"

definition load_ratio :: "agent \<Rightarrow> rat" where
  "load_ratio a = of_nat (currentLoad a) / of_nat (maxConcurrent a)"

text \<open>
  \<^verbatim>\<open>discover\<close> with \<^verbatim>\<open>minAvailable\<close> and \<^verbatim>\<open>preferHealthy\<close> as the arguments. The
  comparator puts healthy entries first and orders the rest by load ratio; the sort is stable.
\<close>

definition discover :: "registry \<Rightarrow> string list \<Rightarrow> int \<Rightarrow> string list \<Rightarrow> bool \<Rightarrow> agent list" where
  "discover reg caps minAvailable excludeIds preferHealthy =
     (let candidates = filter (\<lambda>a.
            agentId a \<notin> set excludeIds \<and>
            status a \<noteq> offline \<and>
            (caps = [] \<or> list_all (\<lambda>c. c \<in> set (capabilities a)) caps) \<and>
            \<not> (int (maxConcurrent a) - int (currentLoad a) < minAvailable)) (map snd reg)
      in if preferHealthy
         then sort_key (\<lambda>a. (if status a = healthy then 0 else 1 :: nat, load_ratio a)) candidates
         else candidates)"

definition getAgent :: "registry \<Rightarrow> string \<Rightarrow> agent option" where
  "getAgent reg aid = map_of reg aid"

definition getAllAgents :: "registry \<Rightarrow> agent list" where
  "getAllAgents reg = map snd reg"

section \<open>Router (\<^verbatim>\<open>AgentRouter\<close>)\<close>

datatype RoutingStrategy =
  CAPABILITY_MATCH | LOAD_BALANCE | COST_OPTIMIZE | PERFORMANCE | ROUND_ROBIN
  | UNKNOWN_ROUTING string

text \<open>The \<^verbatim>\<open>strategy\<close> field of a route: a routing strategy or \<^verbatim>\<open>'fallback_default'\<close>.\<close>

datatype route_strategy = Selected RoutingStrategy | fallback_default

text \<open>
  The route object. \<^verbatim>\<open>assignedAt\<close> (the clock) is left out. A field that the source
  does not write is \<open>None\<close>; \<open>route_subtask\<close> is the \<^verbatim>\<open>subtask\<close> that
  \<^verbatim>\<open>routeSubtasks\<close> adds when it stores the route.
\<close>

record route =
  route_subtaskId :: string
  route_agentId :: string
  route_agentName :: string
  route_strategy :: route_strategy
  route_estimatedDuration :: "nat option"
  isFallback :: "bool option"
  route_subtask :: "subtask option"

text \<open>
  The router: its default strategy, \<^verbatim>\<open>fallbackEnabled\<close> and the round-robin counter. The
  routing statistics are counters that nothing reads back and are left out.
\<close>

record router =
  router_strategy :: RoutingStrategy
  fallbackEnabled :: bool
  roundRobinIndex :: nat

definition default_router :: router where
  "default_router =
     \<lparr>router_strategy = CAPABILITY_MATCH, fallbackEnabled = True, roundRobinIndex = 0\<rparr>"

text \<open>The \<^verbatim>\<open>options\<close> of \<^verbatim>\<open>route\<close>; an absent key is \<open>None\<close>.\<close>

record route_options =
  ro_strategy :: "RoutingStrategy option"
  ro_excludeAgents :: "string list option"
  ro_isFallback :: "bool option"

definition no_route_options :: route_options where
  "no_route_options = \<lparr>ro_strategy = None, ro_excludeAgents = None, ro_isFallback = None\<rparr>"

text \<open>
  \<^verbatim>\<open>selectByCapability\<close>: the share of required capabilities an agent has, sorted in
  descending order by a stable sort; with no required capability the score is not a number,
  every comparison is a tie, and the order stays.
\<close>

definition selectByCapability :: "agent list \<Rightarrow> subtask \<Rightarrow> agent option" where
  "selectByCapability candidates st =
     (let requiredCaps = (case requiredCapabilities st of None \<Rightarrow> [] | Some cs \<Rightarrow> cs);
          scored = map (\<lambda>a. (a,
                     if requiredCaps = [] then (0 :: rat)
                     else of_nat (length (filter (\<lambda>c. c \<in> set (capabilities a)) requiredCaps))
                          / of_nat (length requiredCaps))) candidates
      in case sort_key (\<lambda>(a, score). - score) scored of [] \<Rightarrow> None | (a, score) # _ \<Rightarrow> Some a)"

text \<open>
  The three \<^verbatim>\<open>reduce\<close> selections keep the first best entry; on an empty array
  \<^verbatim>\<open>reduce\<close> throws a TypeError.
\<close>

definition selectByLoadBalance :: "agent list \<Rightarrow> exn + agent" where
  "selectByLoadBalance candidates =
     (case candidates of [] \<Rightarrow> Inl TypeError
      | c # cs \<Rightarrow>
          Inr (foldl (\<lambda>best current. if load_ratio current < load_ratio best then current else best)
                 c cs))"

definition cost_of :: "agent \<Rightarrow> rat" where
  "cost_of a = (case costPerToken a of None \<Rightarrow> 1 | Some c \<Rightarrow> if c = 0 then 1 else c)"

definition selectByCost :: "agent list \<Rightarrow> exn + agent" where
  "selectByCost candidates =
     (case candidates of [] \<Rightarrow> Inl TypeError
      | c # cs \<Rightarrow>
          Inr (foldl (\<lambda>best current. if cost_of current < cost_of best then current else best)
                 c cs))"

text \<open>\<^verbatim>\<open>avgExecutionTime || Infinity\<close>: \<open>None\<close> is infinity.\<close>

definition time_of :: "agent \<Rightarrow> rat option" where
  "time_of a = (if avgExecutionTime a = 0 then None else Some (avgExecutionTime a))"

definition faster :: "rat option \<Rightarrow> rat option \<Rightarrow> bool" where
  "faster x y =
     (case x of None \<Rightarrow> False
      | Some a \<Rightarrow> (case y of None \<Rightarrow> True | Some b \<Rightarrow> a < b))"

definition selectByPerformance :: "agent list \<Rightarrow> exn + agent" where
  "selectByPerformance candidates =
     (case candidates of [] \<Rightarrow> Inl TypeError
      | c # cs \<Rightarrow>
          Inr (foldl (\<lambda>best current. if faster (time_of current) (time_of best) then current
                                      else best) c cs))"

definition selectByRoundRobin :: "router \<Rightarrow> agent list \<Rightarrow> agent option \<times> router" where
  "selectByRoundRobin r candidates =
     (let index = roundRobinIndex r mod length candidates
      in (if index < length candidates then Some (candidates ! index) else None,
          r\<lparr>roundRobinIndex := roundRobinIndex r + 1\<rparr>))"

text \<open>\<^verbatim>\<open>selectAgent\<close>; \<open>Inr None\<close> is \<^verbatim>\<open>undefined\<close>.\<close>

definition selectAgent ::
  "router \<Rightarrow> agent list \<Rightarrow> subtask \<Rightarrow> RoutingStrategy \<Rightarrow> (exn + agent option) \<times> router" where
  "selectAgent r candidates st strat =
     (case strat of
        CAPABILITY_MATCH \<Rightarrow> (Inr (selectByCapability candidates st), r)
      | LOAD_BALANCE \<Rightarrow> (map_sum id Some (selectByLoadBalance candidates), r)
      | COST_OPTIMIZE \<Rightarrow> (map_sum id Some (selectByCost candidates), r)
      | PERFORMANCE \<Rightarrow> (map_sum id Some (selectByPerformance candidates), r)
      | ROUND_ROBIN \<Rightarrow> (let (a, r1) = selectByRoundRobin r candidates in (Inr a, r1))
      | UNKNOWN_ROUTING s \<Rightarrow> (Inr (case candidates of [] \<Rightarrow> None | c # _ \<Rightarrow> Some c), r))"

text \<open>
  The state that routing reads and writes: the registry and the router. The part of
  \<^verbatim>\<open>route\<close> after a non-empty discovery: select, reserve the load, build the route.
\<close>

type_synonym routing_state = "registry \<times> router"

definition assign_route ::
  "agent list \<Rightarrow> subtask \<Rightarrow> RoutingStrategy \<Rightarrow> routing_state \<Rightarrow> (exn + route) \<times> routing_state" where
  "assign_route candidates st strat s =
     (case selectAgent (snd s) candidates st strat of
        (Inl e, r1) \<Rightarrow> (Inl e, (fst s, r1))
      | (Inr None, r1) \<Rightarrow> (Inl CannotSelectAgent, (fst s, r1))
      | (Inr (Some selectedAgent), r1) \<Rightarrow>
          (Inr \<lparr>route_subtaskId = st_id st, route_agentId = agentId selectedAgent,
                route_agentName = agent_name selectedAgent, route_strategy = Selected strat,
                route_estimatedDuration =
                  Some (case estimatedDuration st of None \<Rightarrow> 60000
                        | Some d \<Rightarrow> if d = 0 then 60000 else d),
                isFallback = None, route_subtask = None\<rparr>,
           (snd (updateLoad (fst s) (agentId selectedAgent) 1), r1)))"

definition candidates_for :: "registry \<Rightarrow> subtask \<Rightarrow> route_options \<Rightarrow> agent list" where
  "candidates_for reg st options =
     discover reg (case requiredCapabilities st of None \<Rightarrow> [] | Some cs \<Rightarrow> cs) 1
       (case ro_excludeAgents options of None \<Rightarrow> [] | Some ex \<Rightarrow> ex) True"

definition strategy_for :: "router \<Rightarrow> route_options \<Rightarrow> RoutingStrategy" where
  "strategy_for r options = (case ro_strategy options of None \<Rightarrow> router_strategy r | Some s \<Rightarrow> s)"

text \<open>
  \<^verbatim>\<open>route\<close> called with \<^verbatim>\<open>options.isFallback\<close> set, as \<^verbatim>\<open>fallbackRoute\<close> calls it:
  an empty discovery throws.
\<close>

definition route_in_fallback ::
  "subtask \<Rightarrow> route_options \<Rightarrow> routing_state \<Rightarrow> (exn + route) \<times> routing_state" where
  "route_in_fallback st options s =
     (let candidates = candidates_for (fst s) st options
      in if candidates = [] then (Inl NoAgentAvailable, s)
         else assign_route candidates st (strategy_for (snd s) options) s)"

text \<open>
  \<^verbatim>\<open>fallbackRoute\<close>: retry with the first required capability only (\<^verbatim>\<open>['read']\<close> when
  the subtask has no capability list), by load balance and with nobody excluded; when that
  throws, take the first registered agent, whatever its load.
\<close>

definition fallbackRoute ::
  "subtask \<Rightarrow> route_options \<Rightarrow> routing_state \<Rightarrow> (exn + route) \<times> routing_state" where
  "fallbackRoute st options s =
     (let relaxedSubtask = st\<lparr>requiredCapabilities :=
              Some (case requiredCapabilities st of None \<Rightarrow> [''read''] | Some cs \<Rightarrow> take 1 cs)\<rparr>
      in case route_in_fallback relaxedSubtask
                (options\<lparr>ro_strategy := Some LOAD_BALANCE, ro_excludeAgents := Some [],
                         ro_isFallback := Some True\<rparr>) s of
           (Inr rt, s1) \<Rightarrow> (Inr rt, s1)
         | (Inl e, s1) \<Rightarrow>
             (case getAllAgents (fst s1) of
                [] \<Rightarrow> (Inl FallbackFailed, s1)
              | defaultAgent # _ \<Rightarrow>
                  (Inr \<lparr>route_subtaskId = st_id st, route_agentId = agentId defaultAgent,
                        route_agentName = agent_name defaultAgent,
                        route_strategy = fallback_default, route_estimatedDuration = None,
                        isFallback = Some True, route_subtask = None\<rparr>,
                   (snd (updateLoad (fst s1) (agentId defaultAgent) 1), snd s1))))"

text \<open>\<^verbatim>\<open>route\<close>.\<close>

definition route ::
  "subtask \<Rightarrow> route_options \<Rightarrow> routing_state \<Rightarrow> (exn + route) \<times> routing_state" where
  "route st options s =
     (let candidates = candidates_for (fst s) st options
      in if candidates = []
         then (if fallbackEnabled (snd s) \<and> ro_isFallback options \<noteq> Some True
               then fallbackRoute st options s
               else (Inl NoAgentAvailable, s))
         else assign_route candidates st (strategy_for (snd s) options) s)"

text \<open>
  \<^verbatim>\<open>reRoute\<close>: release the load of the agent that failed, then route the stored subtask
  again by load balance with that agent excluded. A route stored without its subtask makes
  \<^verbatim>\<open>route\<close> read a property of \<^verbatim>\<open>undefined\<close>.
\<close>

definition reRoute :: "route \<Rightarrow> routing_state \<Rightarrow> (exn + route) \<times> routing_state" where
  "reRoute failedRoute s =
     (let s1 = (snd (updateLoad (fst s) (route_agentId failedRoute) (- 1)), snd s)
      in case route_subtask failedRoute of
           None \<Rightarrow> (Inl TypeError, s1)
         | Some st \<Rightarrow>
             route st (no_route_options\<lparr>ro_excludeAgents := Some [route_agentId failedRoute],
                                          ro_strategy := Some LOAD_BALANCE\<rparr>) s1)"

section \<open>Task decomposer (\<^verbatim>\<open>TaskDecomposer\<close>)\<close>

subsection \<open>Plain objects\<close>

text \<open>
  \<^verbatim>\<open>buildDAG\<close> keeps its two tables, \<^verbatim>\<open>graph\<close> and \<^verbatim>\<open>inDegree\<close>, in plain
  objects (\<^verbatim>\<open>{}\<close>) keyed by subtask id. Three features of such an object show in what
  \<^verbatim>\<open>buildDAG\<close> computes: the order in which \<^verbatim>\<open>Object.keys\<close> lists the keys, the
  properties the object inherits from its prototype, and the assignment to \<^verbatim>\<open>__proto__\<close>.
\<close>

text \<open>
  \<^verbatim>\<open>Object.keys\<close>: first the keys that are array indices (the canonical decimal numerals
  below \<open>2\<^sup>3\<^sup>2 - 1\<close>) in ascending numeric order, then every other key in order of
  creation. The own properties of an object are an association list in order of creation.
\<close>

definition is_digit :: "char \<Rightarrow> bool" where
  "is_digit c = (c \<in> set ''0123456789'')"

definition digit_value :: "char \<Rightarrow> nat" where
  "digit_value c = of_char c - 48"

definition index_value :: "string \<Rightarrow> nat" where
  "index_value s = foldl (\<lambda>n c. 10 * n + digit_value c) 0 s"

definition is_array_index :: "string \<Rightarrow> bool" where
  "is_array_index s =
     (s \<noteq> [] \<and> list_all is_digit s \<and> (s = ''0'' \<or> hd s \<in> set ''123456789'') \<and>
      index_value s < 2 ^ 32 - 1)"

definition Object_keys :: "(string \<times> 'a) list \<Rightarrow> string list" where
  "Object_keys obj =
     sort_key index_value (filter is_array_index (map fst obj)) @
     filter (\<lambda>k. \<not> is_array_index k) (map fst obj)"

text \<open>
  A name that is not a key of the object is looked up in its prototype, for \<^verbatim>\<open>{}\<close> the
  object \<^verbatim>\<open>Object.prototype\<close>. These are its members: all are functions, except
  \<^verbatim>\<open>__proto__\<close>, an accessor that reads and replaces the prototype.
\<close>

definition Object_prototype_names :: "string list" where
  "Object_prototype_names =
     [''constructor'', ''__defineGetter__'', ''__defineSetter__'', ''hasOwnProperty'',
      ''__lookupGetter__'', ''__lookupSetter__'', ''isPrototypeOf'', ''propertyIsEnumerable'',
      ''toString'', ''valueOf'', ''__proto__'', ''toLocaleString'']"

text \<open>
  The members of \<^verbatim>\<open>Array.prototype\<close> other than \<^verbatim>\<open>length\<close> (ECMAScript 2023), all of
  them functions. They are read only after an assignment has made an array the prototype of
  \<^verbatim>\<open>graph\<close>.
\<close>

definition Array_prototype_names :: "string list" where
  "Array_prototype_names =
     [''constructor'', ''at'', ''concat'', ''copyWithin'', ''fill'', ''find'', ''findIndex'',
      ''findLast'', ''findLastIndex'', ''lastIndexOf'', ''pop'', ''push'', ''reverse'', ''shift'',
      ''unshift'', ''slice'', ''sort'', ''splice'', ''includes'', ''indexOf'', ''join'', ''keys'',
      ''entries'', ''values'', ''forEach'', ''filter'', ''flat'', ''flatMap'', ''map'', ''every'',
      ''some'', ''reduce'', ''reduceRight'', ''toLocaleString'', ''toString'', ''toReversed'',
      ''toSorted'', ''toSpliced'', ''with'']"

text \<open>
  The object \<^verbatim>\<open>graph\<close>: its own properties, each an array of ids, and its prototype.
  The prototype is \<^verbatim>\<open>Object.prototype\<close> (\<open>None\<close>) until \<^verbatim>\<open>graph['__proto__'] = []\<close>
  puts an array in its place; \<open>Some P\<close> is that array with the ids pushed to it so far.
\<close>

type_synonym graph = "(string \<times> string list) list"
type_synonym in_degree = "(string \<times> int) list"

record graph_object =
  own_properties :: graph
  prototype_array :: "string list option"

text \<open>
  What \<^verbatim>\<open>graph[depId]\<close> evaluates to: an own adjacency array; the array that is the
  prototype; some other truthy value (a function, \<^verbatim>\<open>Object.prototype\<close>, a positive
  length, a non-empty id stored in the prototype array), which has no \<^verbatim>\<open>push\<close>; or
  \<^verbatim>\<open>undefined\<close>, \<open>0\<close> or the empty string, which are falsy.
\<close>

datatype property = Adjacency "string list" | Prototype "string list" | Other_truthy | Falsy

definition get_property :: "graph_object \<Rightarrow> string \<Rightarrow> property" where
  "get_property g k =
     (case map_of (own_properties g) k of
        Some ns \<Rightarrow> Adjacency ns
      | None \<Rightarrow>
          (case prototype_array g of
             None \<Rightarrow> if k \<in> set Object_prototype_names then Other_truthy else Falsy
           | Some P \<Rightarrow>
               if k = ''__proto__'' then Prototype P
               else if k = ''length'' then (if P = [] then Falsy else Other_truthy)
               else if is_array_index k \<and> index_value k < length P
                    then (if P ! index_value k = [] then Falsy else Other_truthy)
               else if k \<in> set Array_prototype_names \<or> k \<in> set Object_prototype_names
                    then Other_truthy
               else Falsy))"

text \<open>
  \<^verbatim>\<open>forEach\<close> with a body that may throw: the first exception ends the loop and leaves
  the function.
\<close>

fun forEach :: "('a \<Rightarrow> 's \<Rightarrow> exn + 's) \<Rightarrow> 'a list \<Rightarrow> 's \<Rightarrow> exn + 's" where
  "forEach f [] s = Inr s"
| "forEach f (x # xs) s = (case f x s of Inl e \<Rightarrow> Inl e | Inr s' \<Rightarrow> forEach f xs s')"

subsection \<open>\<^verbatim>\<open>buildDAG\<close>\<close>

text \<open>
  The first \<^verbatim>\<open>forEach\<close>: \<^verbatim>\<open>graph[st.id] = []\<close> and \<^verbatim>\<open>inDegree[st.id] = 0\<close>. For
  the id \<^verbatim>\<open>__proto__\<close> the first assignment replaces the prototype of \<^verbatim>\<open>graph\<close> by the
  new array and the second, whose value is a number, does nothing; neither creates a key.
\<close>

definition init_graph :: "subtask list \<Rightarrow> graph_object" where
  "init_graph subtasks =
     fold (\<lambda>st g. if st_id st = ''__proto__'' then g\<lparr>prototype_array := Some []\<rparr>
                    else g\<lparr>own_properties := AList.update (st_id st) [] (own_properties g)\<rparr>)
       subtasks \<lparr>own_properties = [], prototype_array = None\<rparr>"

definition init_inDegree :: "subtask list \<Rightarrow> in_degree" where
  "init_inDegree subtasks =
     fold (\<lambda>st d. if st_id st = ''__proto__'' then d else AList.update (st_id st) 0 d)
       subtasks []"

text \<open>
  The body of the second, nested \<^verbatim>\<open>forEach\<close>. When \<^verbatim>\<open>graph[depId]\<close> is falsy the
  dependency is skipped. When it is an array, the dependent id is pushed to it and
  \<^verbatim>\<open>inDegree[st.id]++\<close> counts one more incoming edge (for the id \<^verbatim>\<open>__proto__\<close>, which
  is no key of \<^verbatim>\<open>inDegree\<close>, the increment stores nothing). When it is any other truthy
  value, \<^verbatim>\<open>graph[depId].push\<close> is \<^verbatim>\<open>undefined\<close> and the call throws a TypeError.
\<close>

definition add_edge ::
  "string \<Rightarrow> string \<Rightarrow> graph_object \<times> in_degree \<Rightarrow> exn + graph_object \<times> in_degree" where
  "add_edge sid depId t =
     (case get_property (fst t) depId of
        Falsy \<Rightarrow> Inr t
      | Other_truthy \<Rightarrow> Inl TypeError
      | Adjacency ns \<Rightarrow>
          Inr ((fst t)\<lparr>own_properties := AList.update depId (ns @ [sid]) (own_properties (fst t))\<rparr>,
               AList.map_entry sid (\<lambda>n. n + 1) (snd t))
      | Prototype P \<Rightarrow>
          Inr ((fst t)\<lparr>prototype_array := Some (P @ [sid])\<rparr>,
               AList.map_entry sid (\<lambda>n. n + 1) (snd t)))"

definition add_edges ::
  "subtask list \<Rightarrow> graph_object \<times> in_degree \<Rightarrow> exn + graph_object \<times> in_degree" where
  "add_edges subtasks t =
     forEach (\<lambda>st. forEach (add_edge (st_id st)) (dependsOn st)) subtasks t"

definition build_tables :: "subtask list \<Rightarrow> exn + graph_object \<times> in_degree" where
  "build_tables subtasks = add_edges subtasks (init_graph subtasks, init_inDegree subtasks)"

text \<open>The keys with in-degree zero, in the order of \<^verbatim>\<open>Object.keys\<close>: the first queue.\<close>

definition initial_queue :: "in_degree \<Rightarrow> string list" where
  "initial_queue d = filter (\<lambda>k. map_of d k = Some 0) (Object_keys d)"

text \<open>
  \<^verbatim>\<open>graph[id]\<close> for an id of the queue. Every id of the queue is a key of
  \<^verbatim>\<open>inDegree\<close>, and the two objects have the same keys.
\<close>


definition successors :: "graph \<Rightarrow> string \<Rightarrow> string list" where
  "successors g i = (case map_of g i of None \<Rightarrow> [] | Some ns \<Rightarrow> ns)"

text \<open>
  The body of the innermost \<^verbatim>\<open>forEach\<close>: \<^verbatim>\<open>inDegree[nextId]--\<close>, then push
  \<^verbatim>\<open>nextId\<close> when the count is exactly zero. The pair is \<^verbatim>\<open>inDegree\<close> and the new
  \<^verbatim>\<open>queue\<close>.
\<close>

definition visit :: "string \<Rightarrow> in_degree \<times> string list \<Rightarrow> in_degree \<times> string list" where
  "visit nextId t =
     (let d = AList.map_entry nextId (\<lambda>n. n - 1) (fst t)
      in (d, if map_of d nextId = Some 0 then snd t @ [nextId] else snd t))"

text \<open>One pass of the \<^verbatim>\<open>while\<close> loop over \<^verbatim>\<open>currentGroup\<close>, from an emptied queue.\<close>

definition release_group :: "graph \<Rightarrow> string list \<Rightarrow> in_degree \<Rightarrow> in_degree \<times> string list" where
  "release_group g currentGroup d =
     fold (\<lambda>i. fold visit (successors g i)) currentGroup (d, [])"

text \<open>
  The \<^verbatim>\<open>while (queue.length > 0)\<close> loop returns the list of groups. It terminates on
  every state: a push needs a count that drops from one to zero, so the number of keys with a
  positive count bounds the pushes still to come.
\<close>

definition positive :: "in_degree \<Rightarrow> string set" where
  "positive d = {k. \<exists>v. map_of d k = Some v \<and> 0 < v}"

lemma finite_positive: "finite (positive d)"
proof -
  have "positive d \<subseteq> fst ` set d"
    by (auto simp: positive_def dest!: map_of_SomeD intro: rev_image_eqI)
  then show ?thesis by (rule finite_subset) simp
qed

lemma visit_potential:
  "card (positive (fst (visit n t))) + length (snd (visit n t)) \<le> card (positive (fst t)) + length (snd t)"
proof -
  let ?d = "fst t" and ?d' = "AList.map_entry n (\<lambda>n. n - 1) (fst t)"
  have sub: "positive ?d' \<subseteq> positive ?d"
    by (auto simp: positive_def map_of_map_entry split: if_splits option.splits)
  show ?thesis
  proof (cases "map_of ?d' n = Some 0")
    case True
    then have "n \<in> positive ?d" "n \<notin> positive ?d'"
      by (auto simp: positive_def map_of_map_entry split: option.splits)
    with sub have "positive ?d' \<subset> positive ?d" by blast
    then have "card (positive ?d') < card (positive ?d)"
      by (rule psubset_card_mono [OF finite_positive])
    with True show ?thesis by (simp add: visit_def Let_def)
  next
    case False
    with card_mono [OF finite_positive sub] show ?thesis by (simp add: visit_def Let_def)
  qed
qed

lemma fold_visit_potential:
  "card (positive (fst (fold visit ns t))) + length (snd (fold visit ns t)) \<le> card (positive (fst t)) + length (snd t)"
proof (induction ns arbitrary: t)
  case Nil
  then show ?case by simp
next
  case (Cons n ns)
  have "card (positive (fst (fold visit ns (visit n t)))) + length (snd (fold visit ns (visit n t)))
      \<le> card (positive (fst (visit n t))) + length (snd (visit n t))" by (rule Cons.IH)
  also have "\<dots> \<le> card (positive (fst t)) + length (snd t)" by (rule visit_potential)
  finally show ?case by simp
qed

lemma fold_group_potential:
  "card (positive (fst (fold (\<lambda>i. fold visit (successors g i)) grp t))) + length (snd (fold (\<lambda>i. fold visit (successors g i)) grp t))
     \<le> card (positive (fst t)) + length (snd t)"
proof (induction grp arbitrary: t)
  case Nil
  then show ?case by simp
next
  case (Cons i grp)
  have "card (positive (fst (fold (\<lambda>i. fold visit (successors g i)) grp (fold visit (successors g i) t)))) 
     + length (snd (fold (\<lambda>i. fold visit (successors g i)) grp (fold visit (successors g i) t)))
      \<le> card (positive (fst (fold visit (successors g i) t))) + length (snd (fold visit (successors g i) t))" by (rule Cons.IH)
  also have "\<dots> \<le> card (positive (fst t)) + length (snd t)" by (rule fold_visit_potential)
  finally show ?case by simp
qed

lemma release_group_potential:
  "card (positive (fst (release_group g grp d))) + length (snd (release_group g grp d)) \<le> card (positive d)"
  using fold_group_potential [of g grp "(d, [])"] by (simp add: release_group_def)

function kahn_loop :: "graph \<Rightarrow> in_degree \<Rightarrow> string list \<Rightarrow> string list list" where
  "kahn_loop g d queue =
     (if queue = [] then []
      else queue # kahn_loop g (fst (release_group g queue d)) (snd (release_group g queue d)))"
  by pat_completeness auto
termination
proof (relation "measures [\<lambda>(g, d, q). card (positive d), \<lambda>(g, d, q). length q]")
  show "wf (measures [\<lambda>(g, d, q). card (positive d), \<lambda>(g, d, q). length q])" by simp
next
  fix g :: graph and d :: in_degree and queue :: "string list"
  assume ne: "queue \<noteq> []"
  let ?r = "release_group g queue d"
  have pot: "card (positive (fst ?r)) + length (snd ?r) \<le> card (positive d)"
    by (rule release_group_potential)
  show "((g, fst ?r, snd ?r), g, d, queue)
        \<in> measures [\<lambda>(g, d, q). card (positive d), \<lambda>(g, d, q). length q]"
  proof (cases "snd ?r = []")
    case True
    with pot ne show ?thesis by (auto simp: case_prod_beta)
  next
    case False
    then have "0 < length (snd ?r)" by simp
    with pot have "card (positive (fst ?r)) < card (positive d)" by linarith
    then show ?thesis by (simp add: case_prod_beta)
  qed
qed

declare kahn_loop.simps [simp del]

text \<open>The analysis that \<^verbatim>\<open>decompose\<close> stores in the DAG (\<^verbatim>\<open>analyzeComplexity\<close>).\<close>

record analysis =
  a_length :: nat
  a_wordCount :: nat
  a_hasMultipleSteps :: bool
  a_hasMultipleTargets :: bool
  a_hasDeepAnalysis :: bool
  a_hasDependencies :: bool
  estimatedSubtasks :: nat
  complexityScore :: nat
  shouldDecompose :: bool

text \<open>
  The DAG object. \<^verbatim>\<open>buildDAG\<close> writes \<^verbatim>\<open>subtasks\<close>, \<^verbatim>\<open>graph\<close>,
  \<^verbatim>\<open>parallelGroups\<close> and \<^verbatim>\<open>isValid\<close>; \<^verbatim>\<open>decompose\<close> adds
  \<^verbatim>\<open>complexity\<close> and \<^verbatim>\<open>totalSubtasks\<close> (and \<^verbatim>\<open>taskId\<close>, from the clock, and the
  task text, both left out). A field not written is \<open>None\<close>.
\<close>

record dag =
  dag_subtasks :: "subtask list"
  dag_graph :: "graph_object option"
  parallelGroups :: "string list list"
  isValid :: "bool option"
  complexity :: "analysis option"
  totalSubtasks :: "nat option"

text \<open>
  \<^verbatim>\<open>buildDAG\<close> has no \<^verbatim>\<open>throw\<close> of its own and no test for a cycle: the only
  exception that can leave it is the TypeError of the edge loop. \<^verbatim>\<open>isValid\<close> says
  whether the loop found a group.
\<close>

definition buildDAG :: "subtask list \<Rightarrow> exn + dag" where
  "buildDAG subtasks =
     (case build_tables subtasks of
        Inl e \<Rightarrow> Inl e
      | Inr t \<Rightarrow>
          (let groups = kahn_loop (own_properties (fst t)) (snd t) (initial_queue (snd t))
           in Inr \<lparr>dag_subtasks = subtasks, dag_graph = Some (fst t), parallelGroups = groups,
                   isValid = Some (groups \<noteq> []), complexity = None, totalSubtasks = None\<rparr>))"

subsection \<open>Notions used to state the properties of \<^verbatim>\<open>buildDAG\<close>\<close>

definition ids_of :: "subtask list \<Rightarrow> string set" where
  "ids_of subtasks = st_id ` set subtasks"

text \<open>
  The dependency edges that count: \<open>(k, n)\<close> when a subtask with id \<open>n\<close> lists \<open>k\<close>
  in \<^verbatim>\<open>dependsOn\<close> and \<open>k\<close> is the id of a subtask.
\<close>

definition dep_rel :: "subtask list \<Rightarrow> (string \<times> string) set" where
  "dep_rel subtasks =
     {(k, n). k \<in> ids_of subtasks \<and>
              (\<exists>st\<in>set subtasks. st_id st = n \<and> k \<in> set (dependsOn st))}"

text \<open>
  A valid topological partition: every subtask id occurs exactly once in the concatenation of
  the groups (so in exactly one group), and no id listed in the \<^verbatim>\<open>dependsOn\<close> of a
  subtask occurs in the group of that subtask or in a later one.
\<close>

definition topological_partition :: "subtask list \<Rightarrow> string list list \<Rightarrow> bool" where
  "topological_partition subtasks groups =
     (set (concat groups) = ids_of subtasks \<and> distinct (concat groups) \<and>
      (\<forall>i<length groups. \<forall>n\<in>set (groups ! i). \<forall>st\<in>set subtasks. st_id st = n \<longrightarrow>
         (\<forall>k\<in>set (dependsOn st). \<forall>j. i \<le> j \<and> j < length groups \<longrightarrow> k \<notin> set (groups ! j))))"

text \<open>Auxiliary notions of the correctness proof of the loop.\<close>

definition pairs :: "subtask list \<Rightarrow> (string \<times> string) list" where
  "pairs subtasks = concat (map (\<lambda>st. map (\<lambda>dep. (st_id st, dep)) (dependsOn st)) subtasks)"

text \<open>
  The two loops on the association lists alone: a dependency that is no key is skipped. This
  is what \<^verbatim>\<open>buildDAG\<close> computes when no lookup reaches the prototype (lemma
  \<open>build_tables_plain\<close> below); the invariant of the loop is proved on these tables.
\<close>

definition plain_graph :: "subtask list \<Rightarrow> graph" where
  "plain_graph subtasks = fold (\<lambda>st g. AList.update (st_id st) [] g) subtasks []"

definition plain_inDegree :: "subtask list \<Rightarrow> in_degree" where
  "plain_inDegree subtasks = fold (\<lambda>st d. AList.update (st_id st) 0 d) subtasks []"

definition plain_edge :: "string \<Rightarrow> string \<Rightarrow> graph \<times> in_degree \<Rightarrow> graph \<times> in_degree" where
  "plain_edge sid depId t =
     (case map_of (fst t) depId of
        None \<Rightarrow> t
      | Some ns \<Rightarrow> (AList.update depId (ns @ [sid]) (fst t),
                    AList.map_entry sid (\<lambda>n. n + 1) (snd t)))"

definition plain_tables :: "subtask list \<Rightarrow> graph \<times> in_degree" where
  "plain_tables subtasks =
     fold (\<lambda>p. plain_edge (fst p) (snd p)) (pairs subtasks)
       (plain_graph subtasks, plain_inDegree subtasks)"

definition plain_groups :: "subtask list \<Rightarrow> string list list" where
  "plain_groups subtasks =
     kahn_loop (fst (plain_tables subtasks)) (snd (plain_tables subtasks))
       (initial_queue (snd (plain_tables subtasks)))"

text \<open>
  The lists on which a lookup of \<^verbatim>\<open>buildDAG\<close> finds an inherited property: some
  dependency that is not a subtask id names a member of \<^verbatim>\<open>Object.prototype\<close>.
\<close>

definition inherited_dependency :: "subtask list \<Rightarrow> bool" where
  "inherited_dependency subtasks =
     (\<exists>st\<in>set subtasks. \<exists>k\<in>set (dependsOn st).
        k \<notin> ids_of subtasks \<and> k \<in> set Object_prototype_names)"

definition indeg :: "graph \<Rightarrow> string set \<Rightarrow> string \<Rightarrow> nat" where
  "indeg g S n = (\<Sum>k\<in>S. count_list (successors g k) n)"

definition visit_state ::
  "string set \<Rightarrow> (string \<Rightarrow> int) \<Rightarrow> string list \<Rightarrow> in_degree \<times> string list \<Rightarrow> bool" where
  "visit_state K r T s =
     ((\<forall>n\<in>K. map_of (fst s) n = Some (r n - int (count_list T n))) \<and>
      distinct (snd s) \<and>
      set (snd s) = {n \<in> K. 0 < count_list T n \<and> int (count_list T n) = r n})"

definition kahn_inv :: "graph \<Rightarrow> string set \<Rightarrow> string list \<Rightarrow> in_degree \<Rightarrow> string list \<Rightarrow> bool" where
  "kahn_inv g K P d q =
     (distinct (P @ q) \<and> set (P @ q) \<subseteq> K \<and>
      (\<forall>n\<in>K. map_of d n = Some (int (indeg g K n) - int (indeg g (set P) n))) \<and>
      (\<forall>n\<in>K. n \<in> set (P @ q) \<longleftrightarrow> (\<forall>k\<in>K. n \<in> set (successors g k) \<longrightarrow> k \<in> set P)))"

subsection \<open>\<^verbatim>\<open>analyzeComplexity\<close> and \<^verbatim>\<open>decompose\<close>\<close>

text \<open>
  The decomposer reads the task text through regular expressions and string searches only.
  Their outcomes are the input of the model: the length of the text, the number of
  whitespace-separated words, the four marker tests, the first run of digits in the text
  (\<^verbatim>\<open>task.match(/(\d+)/)\<close>), whether the text contains the word for file, and the file
  count that \<^verbatim>\<open>decomposeFileBatchTask\<close> extracts.
\<close>

record task_features =
  task_length :: nat
  task_wordCount :: nat
  hasMultipleSteps :: bool
  hasMultipleTargets :: bool
  hasDeepAnalysis :: bool
  hasDependencies :: bool
  first_number :: "nat option"
  mentions_files :: bool
  file_count :: "nat option"

definition analyzeComplexity :: "nat \<Rightarrow> task_features \<Rightarrow> analysis" where
  "analyzeComplexity maxSubtasks f =
     (let est = 1 + (if hasMultipleSteps f then 2 else 0)
                  + (if hasMultipleTargets f
                     then (case first_number f of Some n \<Rightarrow> min n 10 | None \<Rightarrow> 3) else 0)
                  + (if hasDeepAnalysis f then 2 else 0)
                  + (if hasDependencies f then 1 else 0);
          score = (if task_length f > 200 then 2 else 0)
                  + (if task_length f > 500 then 3 else 0)
                  + (if hasMultipleSteps f then 2 else 0)
                  + (if hasMultipleTargets f then 2 else 0)
                  + (if hasDeepAnalysis f then 2 else 0)
                  + (if hasDependencies f then 1 else 0)
      in \<lparr>a_length = task_length f, a_wordCount = task_wordCount f,
          a_hasMultipleSteps = hasMultipleSteps f, a_hasMultipleTargets = hasMultipleTargets f,
          a_hasDeepAnalysis = hasDeepAnalysis f, a_hasDependencies = hasDependencies f,
          estimatedSubtasks = min est maxSubtasks, complexityScore = score,
          shouldDecompose = (score \<ge> 3 \<or> est > 2)\<rparr>)"

definition new_subtask ::
  "string \<Rightarrow> string list \<Rightarrow> nat \<Rightarrow> string list \<Rightarrow> string option \<Rightarrow> subtask" where
  "new_subtask i deps duration caps ty =
     \<lparr>st_id = i, dependsOn = deps, estimatedDuration = Some duration,
      requiredCapabilities = Some caps, st_type = ty\<rparr>"

text \<open>
  \<^verbatim>\<open>decomposeFileBatchTask\<close>: a scan, one process subtask for each of the first
  \<^verbatim>\<open>Math.min(fileCount, 10)\<close> batches, and an aggregate that depends on every subtask
  of type \<^verbatim>\<open>'process'\<close>. The file count is 5 when the text gives none.
\<close>

definition process_subtask :: "nat \<Rightarrow> subtask" where
  "process_subtask i =
     new_subtask (''process_file_'' @ show_nat i) [''scan_files''] 30000
       [''read'', ''write'', ''analyze''] (Some ''process'')"

definition decomposeFileBatchTask :: "task_features \<Rightarrow> subtask list" where
  "decomposeFileBatchTask f =
     (let fileCount = (case file_count f of None \<Rightarrow> 5 | Some n \<Rightarrow> n);
          subtasks = new_subtask ''scan_files'' [] 10000 [''read'', ''list_files''] (Some ''scan'')
                     # map process_subtask [0..<min fileCount 10];
          processIds = map st_id (filter (\<lambda>s. st_type s = Some ''process'') subtasks)
      in subtasks @
         [new_subtask ''aggregate_results'' processIds 15000
            [''read'', ''write'', ''aggregate''] (Some ''aggregate'')])"

text \<open>\<^verbatim>\<open>decomposeStepByStepTask\<close>: four steps, each depending on the one before.\<close>

definition decomposeStepByStepTask :: "subtask list" where
  "decomposeStepByStepTask =
     [new_subtask ''step_1'' [] 30000 [''read'', ''fetch''] (Some ''step''),
      new_subtask ''step_2'' [''step_1''] 30000 [''read'', ''write'', ''transform'']
        (Some ''step''),
      new_subtask ''step_3'' [''step_2''] 30000 [''read'', ''analyze''] (Some ''step''),
      new_subtask ''step_4'' [''step_3''] 30000 [''read'', ''write'', ''generate'']
        (Some ''step'')]"

definition decomposeAnalysisTask :: "subtask list" where
  "decomposeAnalysisTask =
     [new_subtask ''collect_info'' [] 20000 [''read'', ''search'', ''fetch''] (Some ''collect''),
      new_subtask ''analyze_structure'' [''collect_info''] 30000 [''read'', ''analyze'']
        (Some ''analyze''),
      new_subtask ''deep_analysis'' [''analyze_structure''] 60000
        [''read'', ''analyze'', ''reasoning''] (Some ''deep''),
      new_subtask ''synthesize_report'' [''deep_analysis''] 30000
        [''read'', ''write'', ''synthesize''] (Some ''synthesize'')]"

definition decomposeGenericTask :: "subtask list" where
  "decomposeGenericTask =
     [new_subtask ''prepare'' [] 10000 [''read'', ''plan''] (Some ''prepare''),
      new_subtask ''execute'' [''prepare''] 60000 [''read'', ''write'', ''execute'']
        (Some ''execute''),
      new_subtask ''verify'' [''execute''] 15000 [''read'', ''verify''] (Some ''verify'')]"

text \<open>The template that \<^verbatim>\<open>decompose\<close> selects.\<close>

definition choose_template :: "task_features \<Rightarrow> subtask list" where
  "choose_template f =
     (if hasMultipleTargets f \<and> mentions_files f then decomposeFileBatchTask f
      else if hasMultipleSteps f then decomposeStepByStepTask
      else if hasDeepAnalysis f then decomposeAnalysisTask
      else decomposeGenericTask)"

text \<open>
  \<^verbatim>\<open>decompose\<close>: the single-node DAG, written out by the source itself, when the
  analysis says not to decompose; else the DAG that \<^verbatim>\<open>buildDAG\<close> makes of the template
  (an exception of \<^verbatim>\<open>buildDAG\<close> leaves \<^verbatim>\<open>decompose\<close>). The argument is
  \<^verbatim>\<open>this.maxSubtasks\<close>.
\<close>

definition decompose :: "nat \<Rightarrow> task_features \<Rightarrow> exn + dag" where
  "decompose maxSubtasks f =
     (let analysis = analyzeComplexity maxSubtasks f
      in if \<not> shouldDecompose analysis
         then Inr \<lparr>dag_subtasks = [\<lparr>st_id = ''subtask_1'', dependsOn = [],
                                    estimatedDuration = Some 60000,
                                    requiredCapabilities = Some [''read'', ''write''],
                                    st_type = None\<rparr>],
                   dag_graph = None, parallelGroups = [[''subtask_1'']], isValid = None,
                   complexity = Some analysis, totalSubtasks = Some 1\<rparr>
         else (let subtasks = choose_template f
               in case buildDAG subtasks of
                    Inl e \<Rightarrow> Inl e
                  | Inr d \<Rightarrow> Inr (d\<lparr>complexity := Some analysis,
                                     totalSubtasks := Some (length subtasks)\<rparr>)))"

text \<open>Inputs used to run the decomposer and \<^verbatim>\<open>buildDAG\<close>.\<close>

definition batch_of_three :: task_features where
  "batch_of_three =
     \<lparr>task_length = 12, task_wordCount = 1, hasMultipleSteps = False,
      hasMultipleTargets = True, hasDeepAnalysis = False, hasDependencies = False,
      first_number = Some 3, mentions_files = True, file_count = Some 3\<rparr>"

text \<open>Two subtasks that wait for each other, and a third that is independent.\<close>

definition cyclic_subtasks :: "subtask list" where
  "cyclic_subtasks =
     [new_subtask ''a'' [''b''] 1000 [''read''] None,
      new_subtask ''b'' [''a''] 1000 [''read''] None,
      new_subtask ''c'' [] 1000 [''read''] None]"

text \<open>
  The same two subtasks, with a dependency on an id that no subtask has and that names a member
  of \<^verbatim>\<open>Object.prototype\<close>.
\<close>

definition cyclic_constructor :: "subtask list" where
  "cyclic_constructor =
     [new_subtask ''a'' [''b''] 1000 [''read''] None,
      new_subtask ''b'' [''a'', ''constructor''] 1000 [''read''] None,
      new_subtask ''c'' [] 1000 [''read''] None]"

text \<open>Ranks that decrease along the dependency edges of the four templates.\<close>

definition batch_rank :: "string \<Rightarrow> nat" where
  "batch_rank x = (if x = ''scan_files'' then 2 else if x = ''aggregate_results'' then 0 else 1)"

definition steps_rank :: "string \<Rightarrow> nat" where
  "steps_rank x = (if x = ''step_1'' then 3 else if x = ''step_2'' then 2
                   else if x = ''step_3'' then 1 else 0)"

definition analysis_rank :: "string \<Rightarrow> nat" where
  "analysis_rank x = (if x = ''collect_info'' then 3 else if x = ''analyze_structure'' then 2
                      else if x = ''deep_analysis'' then 1 else 0)"

definition generic_rank :: "string \<Rightarrow> nat" where
  "generic_rank x = (if x = ''prepare'' then 2 else if x = ''execute'' then 1 else 0)"

section \<open>Scheduler (\<^verbatim>\<open>SubagentScheduler\<close>)\<close>

subsection \<open>Default agents\<close>

text \<open>
  \<^verbatim>\<open>setupDefaultAgents\<close>. The source draws the three agent ids from the clock and a
  random number; here they are fixed names.
\<close>

definition default_agents :: registry where
  "default_agents =
     register
       (register
          (register [] ''agent_simple'' (Some ''SimpleAgent'')
             (Some [''read'', ''write'', ''simple_analysis'']) (Some 5) (Some ''simple''))
          ''agent_standard'' (Some ''StandardAgent'')
          (Some [''read'', ''write'', ''analyze'', ''search'']) (Some 3) (Some ''standard''))
       ''agent_deep'' (Some ''DeepAgent'')
       (Some [''read'', ''write'', ''analyze'', ''deep_research'', ''reasoning'']) (Some 1)
       (Some ''deep'')"

text \<open>The load counters of a registry, agent by agent.\<close>

definition loads :: "registry \<Rightarrow> (string \<times> nat) list" where
  "loads reg = map (\<lambda>(i, a). (i, currentLoad a)) reg"

subsection \<open>\<^verbatim>\<open>routeSubtasks\<close>\<close>

text \<open>
  One pass per parallel group: the subtasks not yet routed whose dependencies are all marked
  are routed by capability match; a route is stored with its subtask, a routing error is
  logged and dropped; then all of them are marked. The subtasks of one pass are routed one
  after the other in list order.
\<close>

type_synonym routes = "(string \<times> route) list"

definition route_one :: "subtask \<Rightarrow> routes \<times> routing_state \<Rightarrow> routes \<times> routing_state" where
  "route_one st t =
     (case route st (no_route_options\<lparr>ro_strategy := Some CAPABILITY_MATCH\<rparr>) (snd t) of
        (Inr rt, s1) \<Rightarrow> (AList.update (st_id st) (rt\<lparr>route_subtask := Some st\<rparr>) (fst t), s1)
      | (Inl e, s1) \<Rightarrow> (fst t, s1))"

definition route_group ::
  "dag \<Rightarrow> routes \<times> string list \<times> routing_state \<Rightarrow> routes \<times> string list \<times> routing_state" where
  "route_group d t =
     (case t of (rts, completed, s) \<Rightarrow>
        (let executable = filter (\<lambda>st. map_of rts (st_id st) = None \<and>
                                        list_all (\<lambda>depId. depId \<in> set completed) (dependsOn st))
                            (dag_subtasks d);
             routed = fold route_one executable (rts, s)
         in (fst routed, fold set_add (map st_id executable) completed, snd routed)))"

definition routeSubtasks :: "dag \<Rightarrow> routing_state \<Rightarrow> routes \<times> routing_state" where
  "routeSubtasks d s =
     (case fold (\<lambda>grp. route_group d) (parallelGroups d) ([], [], s) of
        (rts, completed, s1) \<Rightarrow> (rts, s1))"

subsection \<open>\<^verbatim>\<open>executeSubtask\<close> and \<^verbatim>\<open>executeDAG\<close>\<close>

text \<open>
  The object that \<^verbatim>\<open>executeSubtask\<close> returns (its \<^verbatim>\<open>duration\<close>, from the clock, is
  left out).
\<close>

record 'v subtask_result =
  sr_subtaskId :: string
  sr_result :: "'v payload"
  sr_success :: bool
  sr_agentId :: string
  sr_agentName :: string

text \<open>
  The actual execution of a subtask, \<^verbatim>\<open>this.execute({task, forceBranch, ...})\<close>, is the
  external unit of work. It is a parameter: given the subtask, the tier chosen for the agent
  and a state of its own (type \<open>'w\<close>), it returns the \<^verbatim>\<open>success\<close> flag and the
  \<^verbatim>\<open>result\<close> of the returned object, or throws.
\<close>

type_synonym ('v, 'w) executor = "subtask \<Rightarrow> string \<Rightarrow> 'w \<Rightarrow> (exn + bool \<times> 'v payload) \<times> 'w"

definition executeSubtask ::
  "('v, 'w) executor \<Rightarrow> registry \<Rightarrow> route \<Rightarrow> subtask \<Rightarrow> 'w \<Rightarrow> (exn + 'v subtask_result) \<times> 'w" where
  "executeSubtask execute reg rt st w =
     (case getAgent reg (route_agentId rt) of
        None \<Rightarrow> (Inl TypeError, w)
      | Some a \<Rightarrow>
          (let branch = (if agent_type a = Some ''deep'' then ''Deep''
                         else if agent_type a = Some ''simple'' then ''Simple''
                         else ''Standard'')
           in case execute st branch w of
                (Inl e, w1) \<Rightarrow> (Inl e, w1)
              | (Inr (ok, res), w1) \<Rightarrow>
                  (Inr \<lparr>sr_subtaskId = st_id st, sr_result = res, sr_success = ok,
                        sr_agentId = route_agentId rt, sr_agentName = agent_name a\<rparr>, w1)))"

text \<open>
  The state of \<^verbatim>\<open>executeDAG\<close>: registry and router, the state of the executor, the
  \<^verbatim>\<open>results\<close> map and the \<^verbatim>\<open>completed\<close> set.
\<close>

record ('v, 'w) exec_state =
  es_registry :: registry
  es_router :: router
  es_world :: 'w
  es_results :: "(string \<times> 'v subtask_result) list"
  es_completed :: "string list"

text \<open>
  The filter at the head of a group: ids with a route and a subtask whose dependencies are all
  completed, each with the route and the subtask (the first with that id) that the body of
  the group then reads again.
\<close>

definition executable_of ::
  "dag \<Rightarrow> routes \<Rightarrow> string list \<Rightarrow> string list \<Rightarrow> (string \<times> route \<times> subtask) list" where
  "executable_of d rts completed grp =
     List.map_filter (\<lambda>i.
        case map_of rts i of
          None \<Rightarrow> None
        | Some rt \<Rightarrow>
            (case find (\<lambda>st. st_id st = i) (dag_subtasks d) of
               None \<Rightarrow> None
             | Some st \<Rightarrow>
                 if list_all (\<lambda>depId. depId \<in> set completed) (dependsOn st)
                 then Some (i, rt, st) else None)) grp"

text \<open>
  The body for one id. On success: store the result, mark the id, release the load of the
  route's agent. On an exception, unless \<^verbatim>\<open>options.retry === false\<close>: re-route and run
  once more; a second success stores the result and marks the id. The objects
  \<^verbatim>\<open>{success, subtaskId, ...}\<close> that the body returns go to \<^verbatim>\<open>Promise.all\<close> and are
  dropped there.
\<close>

definition run_one ::
  "('v, 'w) executor \<Rightarrow> bool \<Rightarrow> string \<times> route \<times> subtask \<Rightarrow> ('v, 'w) exec_state
     \<Rightarrow> ('v, 'w) exec_state" where
  "run_one execute retry t s =
     (case t of (i, rt, st) \<Rightarrow>
        (case executeSubtask execute (es_registry s) rt st (es_world s) of
           (Inr res, w1) \<Rightarrow>
             s\<lparr>es_world := w1,
               es_results := AList.update i res (es_results s),
               es_completed := set_add i (es_completed s),
               es_registry := snd (updateLoad (es_registry s) (route_agentId rt) (- 1))\<rparr>
         | (Inl e, w1) \<Rightarrow>
             if retry
             then (case reRoute rt (es_registry s, es_router s) of
                     (Inl retryError, s1) \<Rightarrow>
                       s\<lparr>es_world := w1, es_registry := fst s1, es_router := snd s1\<rparr>
                   | (Inr newRoute, s1) \<Rightarrow>
                       (case executeSubtask execute (fst s1) newRoute st w1 of
                          (Inr res, w2) \<Rightarrow>
                            s\<lparr>es_world := w2, es_registry := fst s1, es_router := snd s1,
                              es_results := AList.update i res (es_results s),
                              es_completed := set_add i (es_completed s)\<rparr>
                        | (Inl retryError, w2) \<Rightarrow>
                            s\<lparr>es_world := w2, es_registry := fst s1, es_router := snd s1\<rparr>))
             else s\<lparr>es_world := w1\<rparr>))"

text \<open>
  \<^verbatim>\<open>executeDAG\<close>: group after group; the ids of one group are handled one after the
  other in group order (with a single-member group there is no other order). No exception
  leaves the loop.
\<close>

definition run_group ::
  "('v, 'w) executor \<Rightarrow> bool \<Rightarrow> dag \<Rightarrow> routes \<Rightarrow> string list \<Rightarrow> ('v, 'w) exec_state
     \<Rightarrow> ('v, 'w) exec_state" where
  "run_group execute retry d rts grp s =
     fold (run_one execute retry) (executable_of d rts (es_completed s) grp) s"

definition executeDAG ::
  "('v, 'w) executor \<Rightarrow> bool \<Rightarrow> dag \<Rightarrow> routes \<Rightarrow> routing_state \<Rightarrow> 'w \<Rightarrow> ('v, 'w) exec_state" where
  "executeDAG execute retry d rts s w =
     fold (run_group execute retry d rts) (parallelGroups d)
       \<lparr>es_registry = fst s, es_router = snd s, es_world = w, es_results = [],
        es_completed = []\<rparr>"

subsection \<open>\<^verbatim>\<open>aggregateByDAG\<close> and \<^verbatim>\<open>executeMultiAgent\<close>\<close>

text \<open>A stored result as the aggregator reads it: it has no \<^verbatim>\<open>metadata\<close>.\<close>

definition entry_of :: "'v subtask_result \<Rightarrow> 'v entry" where
  "entry_of r = \<lparr>subtaskId = Some (sr_subtaskId r), result = sr_result r, metadata = None\<rparr>"

definition smart_merge_options :: aggregate_options where
  "smart_merge_options = no_options\<lparr>opt_strategy := Some SMART_MERGE\<rparr>"

definition concat_options :: aggregate_options where
  "concat_options = no_options\<lparr>opt_strategy := Some CONCAT\<rparr>"

text \<open>
  The loop of \<^verbatim>\<open>aggregateByDAG\<close>: for each group the results that exist, merged when
  there is at least one; a group without results is passed over.
\<close>

fun aggregate_groups ::
  "'v runtime \<Rightarrow> aggregator \<Rightarrow> string list list \<Rightarrow> (string \<times> 'v subtask_result) list
     \<Rightarrow> exn + 'v aggregated list" where
  "aggregate_groups rt self [] results = Inr []"
| "aggregate_groups rt self (grp # groups) results =
     (let groupResults = List.map_filter (\<lambda>i. map_of results i) grp
      in if groupResults = [] then aggregate_groups rt self groups results
         else (case aggregate rt self (Some (map entry_of groupResults)) smart_merge_options of
                 Inl e \<Rightarrow> Inl e
               | Inr a \<Rightarrow>
                   (case aggregate_groups rt self groups results of
                      Inl e \<Rightarrow> Inl e
                    | Inr as \<Rightarrow> Inr (a # as))))"

definition aggregateByDAG ::
  "'v runtime \<Rightarrow> aggregator \<Rightarrow> dag \<Rightarrow> (string \<times> 'v subtask_result) list \<Rightarrow> exn + 'v aggregated" where
  "aggregateByDAG rt self d results =
     (case aggregate_groups rt self (parallelGroups d) results of
        Inl e \<Rightarrow> Inl e
      | Inr aggregatedResults \<Rightarrow>
          aggregate rt self
            (Some (map (\<lambda>r. \<lparr>subtaskId = None, result = agg_result r, metadata = None\<rparr>)
                     aggregatedResults))
            concat_options)"

text \<open>
  What \<^verbatim>\<open>executeMultiAgent\<close> returns (without \<^verbatim>\<open>taskId\<close> and \<^verbatim>\<open>duration\<close>): the
  \<^verbatim>\<open>success\<close> flag, the subtask count, the payload and the number of parallel groups.
\<close>

record 'v multi_result =
  ma_success :: bool
  ma_subtaskCount :: "nat option"
  ma_result :: "'v payload"
  ma_parallelGroups :: nat

text \<open>
  Steps 2 to 4 of \<^verbatim>\<open>executeMultiAgent\<close> on a DAG: route, execute, aggregate, and return
  an object whose \<^verbatim>\<open>success\<close> is the constant \<^verbatim>\<open>true\<close>. Only an exception of the
  aggregation can leave; the \<^verbatim>\<open>catch\<close> throws it on.
\<close>

definition run_multi_agent ::
  "'v runtime \<Rightarrow> aggregator \<Rightarrow> ('v, 'w) executor \<Rightarrow> bool \<Rightarrow> dag \<Rightarrow> routing_state \<Rightarrow> 'w
     \<Rightarrow> (exn + 'v multi_result) \<times> ('v, 'w) exec_state" where
  "run_multi_agent rt self execute retry d s w =
     (let routed = routeSubtasks d s;
          es = executeDAG execute retry d (fst routed) (snd routed) w
      in (case aggregateByDAG rt self d (es_results es) of
            Inl e \<Rightarrow> Inl e
          | Inr aggregated \<Rightarrow>
              Inr \<lparr>ma_success = True, ma_subtaskCount = totalSubtasks d,
                    ma_result = agg_result aggregated,
                    ma_parallelGroups = length (parallelGroups d)\<rparr>,
          es))"

definition executeMultiAgent ::
  "'v runtime \<Rightarrow> aggregator \<Rightarrow> ('v, 'w) executor \<Rightarrow> bool \<Rightarrow> nat \<Rightarrow> task_features
     \<Rightarrow> routing_state \<Rightarrow> 'w \<Rightarrow> (exn + 'v multi_result) \<times> ('v, 'w) exec_state" where
  "executeMultiAgent rt self execute retry maxSubtasks f s w =
     (case decompose maxSubtasks f of
        Inl e \<Rightarrow> (Inl e, \<lparr>es_registry = fst s, es_router = snd s, es_world = w,
                           es_results = [], es_completed = []\<rparr>)
      | Inr d \<Rightarrow> run_multi_agent rt self execute retry d s w)"

(*DEFS-END*)

section \<open>Verified properties\<close>

subsection \<open>Aggregation\<close>

lemma example_smart_merge:
  "aggregate example_runtime default_aggregator (Some example_results) no_options =
     Inr (AggSmartMerge
            (''[W 1]'' @ [CHR 0x0A] @ ''beta'' @ concat_separator @
             ''[Agent 2]'' @ [CHR 0x0A] @ ''alpha'') 3 2 0)"
  by code_simp

text \<open>
  Claim C9. For the concat and smart-merge strategies, aggregation is idempotent: when
  aggregating a non-empty results list returns a final result with payload \<open>P\<close>, aggregating
  the one-element list that holds this final result returns, without an exception, a
  successful result with the same payload \<open>P\<close>.
\<close>

theorem aggregate_idempotent:
  assumes "results \<noteq> []"
    and "effective_strategy self options = CONCAT \<or> effective_strategy self options = SMART_MERGE"
    and "aggregate rt self (Some results) options = Inr final"
  shows "\<exists>final'. aggregate rt self (Some [as_entry final]) options = Inr final' \<and>
           agg_success final' \<and> agg_result final' = agg_result final"
  by (simp add: aggregate_def as_entry_def)

theorem aggregate_idempotent_witness:
  "example_results \<noteq> [] \<and>
   effective_strategy default_aggregator no_options = SMART_MERGE \<and>
   aggregate example_runtime default_aggregator (Some example_results) no_options =
     Inr (AggSmartMerge
            (''[W 1]'' @ [CHR 0x0A] @ ''beta'' @ concat_separator @
             ''[Agent 2]'' @ [CHR 0x0A] @ ''alpha'') 3 2 0) \<and>
   (\<exists>final'. aggregate example_runtime default_aggregator
        (Some [as_entry (AggSmartMerge
            (''[W 1]'' @ [CHR 0x0A] @ ''beta'' @ concat_separator @
             ''[Agent 2]'' @ [CHR 0x0A] @ ''alpha'') 3 2 0)]) no_options = Inr final' \<and>
      agg_success final' \<and>
      agg_result final' =
        PString (''[W 1]'' @ [CHR 0x0A] @ ''beta'' @ concat_separator @
                 ''[Agent 2]'' @ [CHR 0x0A] @ ''alpha''))"
proof -
  have ne: "example_results \<noteq> []"
    by (simp add: example_results_def)
  have st: "effective_strategy default_aggregator no_options = SMART_MERGE"
    by (simp add: effective_strategy_def default_aggregator_def no_options_def)
  from aggregate_idempotent [OF ne disjI2 [OF st] example_smart_merge] ne st example_smart_merge
  show ?thesis by simp
qed

text \<open>
  Claim C10. Whatever the strategy (the aggregator's own or the one in the options), calling
  \<^verbatim>\<open>aggregate\<close> with a missing or an empty results list throws nothing and builds no
  payload: it returns the failure object \<^verbatim>\<open>{success: false, error}\<close>.
\<close>

theorem aggregate_no_results:
  "aggregate rt self None options = Inr (AggFailure NoResultsToAggregate) \<and>
   aggregate rt self (Some []) options = Inr (AggFailure NoResultsToAggregate) \<and>
   \<not> agg_success (AggFailure NoResultsToAggregate :: 'v aggregated) \<and>
   agg_result (AggFailure NoResultsToAggregate :: 'v aggregated) = PUndefined"
  by (simp add: aggregate_def)

theorem aggregate_no_results_witness:
  "aggregate example_runtime default_aggregator (Some [])
     \<lparr>opt_strategy = Some VOTE, opt_originalTask = None, opt_priorities = None\<rparr> =
     Inr (AggFailure NoResultsToAggregate)"
  using aggregate_no_results [of example_runtime default_aggregator
      "\<lparr>opt_strategy = Some VOTE, opt_originalTask = None, opt_priorities = None\<rparr>"]
  by simp

subsection \<open>Admission slots\<close>

lemma length_set_add: "length (set_add x xs) \<le> Suc (length xs)"
  by (simp add: set_add_def)

lemma length_set_delete: "length (set_delete x xs) \<le> length xs"
  by (simp add: set_delete_def)

lemma limits_positive: "limits b = Some n \<Longrightarrow> 0 < n"
  by (auto simp: limits_def split: if_splits)

lemma prefix_key_inj: "prefix_key b = prefix_key b' \<longleftrightarrow> b = b'"
  by (simp add: prefix_key_def)

lemma local_apply_bounded:
  assumes inv: "local_bounded s"
  shows "local_bounded (local_apply s op)"
  unfolding local_bounded_def
proof (intro allI impI)
  fix b' n
  assume lim: "limits b' = Some n"
  from inv lim have old: "local_getCurrentConcurrency s b' \<le> n"
    by (simp add: local_bounded_def)
  show "local_getCurrentConcurrency (local_apply s op) b' \<le> n"
  proof (cases op)
    case (Acquire b t)
    then show ?thesis
      using old lim length_set_add [of t "case s b of None \<Rightarrow> [] | Some x \<Rightarrow> x"]
      by (auto simp: local_acquireSlot_def local_getCurrentConcurrency_def Let_def
               split: option.splits if_splits)
  next
    case (Release b t)
    then show ?thesis
      using old lim
      by (auto simp: local_releaseSlot_def local_getCurrentConcurrency_def
                     le_trans [OF length_set_delete]
               split: option.splits if_splits)
  qed
qed

lemma local_run_bounded: "local_bounded s \<Longrightarrow> local_bounded (foldl local_apply s ops)"
  by (induction ops arbitrary: s) (simp_all add: local_apply_bounded)

lemma redis_apply_bounded:
  assumes inv: "redis_bounded s"
  shows "redis_bounded (redis_apply s op)"
  unfolding redis_bounded_def
proof (intro allI impI)
  fix b' n
  assume lim: "limits b' = Some n"
  from inv lim have old: "redis_getCurrentConcurrency s b' \<le> n"
    by (simp add: redis_bounded_def)
  show "redis_getCurrentConcurrency (redis_apply s op) b' \<le> n"
  proof (cases op)
    case (Acquire b t)
    then show ?thesis
      using old lim limits_positive [OF lim] length_set_add [of t "s (prefix_key b)"]
      by (auto simp: redis_acquireSlot_def redis_getCurrentConcurrency_def Let_def
                     prefix_key_inj
               split: option.splits if_splits)
  next
    case (Release b t)
    then show ?thesis
      using old lim
      by (auto simp: redis_releaseSlot_def redis_getCurrentConcurrency_def Let_def
                     prefix_key_inj le_trans [OF length_set_delete])
  qed
qed

lemma redis_run_bounded: "redis_bounded s \<Longrightarrow> redis_bounded (foldl redis_apply s ops)"
  by (induction ops arbitrary: s) (simp_all add: redis_apply_bounded)

lemma local_acquire_all_count:
  "limits b = Some n \<Longrightarrow> distinct ts \<Longrightarrow>
   set ts \<inter> set (case s b of None \<Rightarrow> [] | Some x \<Rightarrow> x) = {} \<Longrightarrow>
   successes (local_acquire_all s b ts) =
     min (length ts) (n - local_getCurrentConcurrency s b)"
proof (induction ts arbitrary: s)
  case Nil
  then show ?case by (simp add: successes_def)
next
  case (Cons t ts)
  obtain ok s' where acq: "local_acquireSlot s b t = (ok, s')"
    by (cases "local_acquireSlot s b t")
  let ?h = "case s b of None \<Rightarrow> [] | Some x \<Rightarrow> x"
  have tn: "t \<notin> set ?h" using Cons.prems by auto
  show ?case
  proof (cases "length ?h < n")
    case True
    then have ok: "ok" and s': "s' = s(b \<mapsto> ?h @ [t])"
      using acq Cons.prems(1) tn
      by (auto simp: local_acquireSlot_def Let_def set_add_def split: option.splits)
    have "successes (local_acquire_all s' b ts) =
            min (length ts) (n - local_getCurrentConcurrency s' b)"
      using Cons.prems by (intro Cons.IH) (auto simp: s')
    then show ?thesis using acq ok True
      by (auto simp: successes_def s' local_getCurrentConcurrency_def split: option.splits)
  next
    case False
    then have ok: "\<not> ok" and s': "s' b = Some ?h"
      using acq Cons.prems(1)
      by (auto simp: local_acquireSlot_def Let_def set_add_def split: option.splits)
    have "successes (local_acquire_all s' b ts) =
            min (length ts) (n - local_getCurrentConcurrency s' b)"
      using Cons.prems by (intro Cons.IH) (auto simp: s')
    then show ?thesis using acq ok False
      by (auto simp: successes_def s' local_getCurrentConcurrency_def split: option.splits)
  qed
qed

lemma redis_acquire_all_count:
  "limits b = Some n \<Longrightarrow> distinct ts \<Longrightarrow> set ts \<inter> set (s (prefix_key b)) = {} \<Longrightarrow>
   successes (redis_acquire_all s b ts) =
     min (length ts) (n - redis_getCurrentConcurrency s b)"
proof (induction ts arbitrary: s)
  case Nil
  then show ?case by (simp add: successes_def)
next
  case (Cons t ts)
  obtain ok s' where acq: "redis_acquireSlot s b t = (ok, s')"
    by (cases "redis_acquireSlot s b t")
  let ?h = "s (prefix_key b)"
  have tn: "t \<notin> set ?h" using Cons.prems by auto
  have pos: "0 < n" using Cons.prems(1) by (rule limits_positive)
  show ?case
  proof (cases "length ?h < n")
    case True
    then have ok: "ok" and s': "s' = s(prefix_key b := ?h @ [t])"
      using acq Cons.prems(1) tn pos
      by (auto simp: redis_acquireSlot_def Let_def set_add_def)
    have "successes (redis_acquire_all s' b ts) =
            min (length ts) (n - redis_getCurrentConcurrency s' b)"
      using Cons.prems by (intro Cons.IH) (auto simp: s')
    then show ?thesis using acq ok True
      by (auto simp: successes_def s' redis_getCurrentConcurrency_def)
  next
    case False
    then have ok: "\<not> ok" and s': "s' = s"
      using acq Cons.prems(1) pos
      by (auto simp: redis_acquireSlot_def Let_def set_add_def)
    have "successes (redis_acquire_all s' b ts) =
            min (length ts) (n - redis_getCurrentConcurrency s' b)"
      using Cons.prems by (intro Cons.IH) (auto simp: s')
    then show ?thesis using acq ok False
      by (auto simp: successes_def s' redis_getCurrentConcurrency_def)
  qed
qed

text \<open>
  Claim C4. For every tier with concurrency limit \<open>N\<close> and for both controllers: after any
  history of \<^verbatim>\<open>acquireSlot\<close> and \<^verbatim>\<open>releaseSlot\<close> calls on a fresh controller the number
  of task ids that hold a slot of the tier is at most \<open>N\<close>; and a burst of \<open>N + 1\<close>
  \<^verbatim>\<open>acquireSlot\<close> calls with distinct task ids on a fresh controller gets exactly \<open>N\<close>
  successes, so one call fails.
\<close>

theorem acquireSlot_never_exceeds_limit:
  assumes "limits tier = Some N"
  shows "local_getCurrentConcurrency (foldl local_apply Map.empty ops) tier \<le> N \<and>
         redis_getCurrentConcurrency (foldl redis_apply (\<lambda>k. []) ops) tier \<le> N \<and>
         (distinct ts \<and> length ts = N + 1 \<longrightarrow>
            successes (local_acquire_all Map.empty tier ts) = N \<and>
            successes (redis_acquire_all (\<lambda>k. []) tier ts) = N)"
proof -
  have "local_bounded Map.empty"
    by (simp add: local_bounded_def local_getCurrentConcurrency_def)
  then have "local_bounded (foldl local_apply Map.empty ops)"
    by (rule local_run_bounded)
  then have l: "local_getCurrentConcurrency (foldl local_apply Map.empty ops) tier \<le> N"
    using assms by (simp add: local_bounded_def)
  have "redis_bounded (\<lambda>k. [])"
    by (simp add: redis_bounded_def redis_getCurrentConcurrency_def)
  then have "redis_bounded (foldl redis_apply (\<lambda>k. []) ops)"
    by (rule redis_run_bounded)
  then have r: "redis_getCurrentConcurrency (foldl redis_apply (\<lambda>k. []) ops) tier \<le> N"
    using assms by (simp add: redis_bounded_def)
  have b: "successes (local_acquire_all Map.empty tier ts) = N \<and>
           successes (redis_acquire_all (\<lambda>k. []) tier ts) = N"
    if "distinct ts" "length ts = N + 1"
    using that local_acquire_all_count [OF assms, of ts Map.empty]
      redis_acquire_all_count [OF assms, of ts "\<lambda>k. []"]
    by (simp add: local_getCurrentConcurrency_def redis_getCurrentConcurrency_def)
  from l r b show ?thesis by blast
qed

theorem acquireSlot_never_exceeds_limit_witness:
  "limits ''Batch'' = Some 2 \<and>
   local_getCurrentConcurrency
     (foldl local_apply Map.empty
        [Acquire ''Batch'' ''t1'', Acquire ''Batch'' ''t2'', Release ''Batch'' ''t1'',
         Acquire ''Batch'' ''t3'', Acquire ''Batch'' ''t4'']) ''Batch'' \<le> 2 \<and>
   redis_getCurrentConcurrency
     (foldl redis_apply (\<lambda>k. [])
        [Acquire ''Batch'' ''t1'', Acquire ''Batch'' ''t2'', Release ''Batch'' ''t1'',
         Acquire ''Batch'' ''t3'', Acquire ''Batch'' ''t4'']) ''Batch'' \<le> 2 \<and>
   successes (local_acquire_all Map.empty ''Batch'' [''t1'', ''t2'', ''t3'']) = 2 \<and>
   successes (redis_acquire_all (\<lambda>k. []) ''Batch'' [''t1'', ''t2'', ''t3'']) = 2"
proof -
  have lim: "limits ''Batch'' = Some 2"
    by (simp add: limits_def)
  have d: "distinct [''t1'', ''t2'', ''t3''] \<and> length [''t1'', ''t2'', ''t3''] = 2 + 1"
    by simp
  from acquireSlot_never_exceeds_limit [OF lim,
      of "[Acquire ''Batch'' ''t1'', Acquire ''Batch'' ''t2'', Release ''Batch'' ''t1'',
           Acquire ''Batch'' ''t3'', Acquire ''Batch'' ''t4'']" "[''t1'', ''t2'', ''t3'']"]
    lim d
  show ?thesis by blast
qed

subsection \<open>Downgrade chain\<close>

lemma chain_entry_default:
  "chain_entry default_downgradeChain b =
     (if b = ''Deep'' \<or> b = ''Orchestrator'' \<or> b = ''Batch'' then Some ''Standard''
      else if b = ''Standard'' then Some ''Simple'' else None)"
  by (simp add: chain_entry_def default_downgradeChain_def)

lemma downgrade_no_entry:
  "chain_entry chain (branch ctx) = None \<Longrightarrow>
   downgradeAndRetry chain fn ctx s ev = Some (Inr (CannotDowngrade (branch ctx)), s, ev)"
  by (subst downgradeAndRetry.simps) simp

lemma downgrade_last_entry:
  assumes "chain_entry chain (branch ctx) = Some t" and "chain_entry chain t = None"
  shows "downgradeAndRetry chain fn ctx s ev =
     (case fn (ctx\<lparr>branch := t, downgraded := True, originalBranch := Some (branch ctx)\<rparr>) s of
        (Inr r, s1) \<Rightarrow> Some (Inr (Downgraded r (branch ctx) t), s1, ev @ [(branch ctx, t)])
      | (Inl e, s1) \<Rightarrow> Some (Inl e, s1, ev @ [(branch ctx, t)]))"
  by (subst downgradeAndRetry.simps) (simp add: assms Let_def split: prod.splits sum.splits)

lemma downgrade_from_Standard:
  assumes "branch ctx = ''Standard''"
  shows "\<exists>out s1. downgradeAndRetry default_downgradeChain fn ctx s ev =
             Some (out, s1, ev @ [(''Standard'', ''Simple'')]) \<and>
           ((\<forall>c t. isl (fst (fn c t))) \<longrightarrow> is_failure out)"
proof -
  let ?c = "ctx\<lparr>branch := ''Simple'', downgraded := True, originalBranch := Some (branch ctx)\<rparr>"
  obtain r s1 where f: "fn ?c s = (r, s1)" by (cases "fn ?c s")
  have last: "chain_entry default_downgradeChain (branch ctx) = Some ''Simple''"
             "chain_entry default_downgradeChain ''Simple'' = None"
    using assms by (simp_all add: chain_entry_default)
  show ?thesis
  proof (cases r)
    case (Inl e)
    then show ?thesis
      using f assms downgrade_last_entry [OF last, of fn s ev]
      by (simp add: is_failure_def)
  next
    case (Inr v)
    have "\<not> (\<forall>c t. isl (fst (fn c t)))"
      using f Inr by (metis fst_conv sum.disc(2))
    then show ?thesis
      using f assms Inr downgrade_last_entry [OF last, of fn s ev]
      by auto
  qed
qed

lemma downgrade_from_top:
  assumes "branch ctx = ''Deep'' \<or> branch ctx = ''Orchestrator'' \<or> branch ctx = ''Batch''"
  shows "\<exists>out s1 ev1. downgradeAndRetry default_downgradeChain fn ctx s ev =
             Some (out, s1, ev @ ev1) \<and> length ev1 \<le> 2 \<and>
           ((\<forall>c t. isl (fst (fn c t))) \<longrightarrow> is_failure out)"
proof -
  let ?c = "ctx\<lparr>branch := ''Standard'', downgraded := True, originalBranch := Some (branch ctx)\<rparr>"
  obtain r s1 where f: "fn ?c s = (r, s1)" by (cases "fn ?c s")
  show ?thesis
  proof (cases r)
    case (Inl e)
    have b: "branch ?c = ''Standard''" by simp
    from downgrade_from_Standard [OF b, of fn s1 "ev @ [(branch ctx, ''Standard'')]"]
    obtain out s2 where
      "downgradeAndRetry default_downgradeChain fn ?c s1 (ev @ [(branch ctx, ''Standard'')]) =
         Some (out, s2, (ev @ [(branch ctx, ''Standard'')]) @ [(''Standard'', ''Simple'')])"
      "(\<forall>c t. isl (fst (fn c t))) \<longrightarrow> is_failure out"
      by blast
    then show ?thesis using assms f Inl
      by (subst downgradeAndRetry.simps) (simp add: chain_entry_default Let_def)
  next
    case (Inr v)
    have "\<not> (\<forall>c t. isl (fst (fn c t)))"
      using f Inr by (metis fst_conv sum.disc(2))
    then show ?thesis using assms f Inr
      by (subst downgradeAndRetry.simps) (auto simp add: chain_entry_default Let_def)
  qed
qed

text \<open>
  Claim C8. With the configured chain (Deep, Orchestrator and Batch to Standard, Standard to
  Simple) the downgrade process returns for every starting tier, every operation and every
  state, after at most two downgrades. When the operation fails at every tier the outcome is
  a terminal failure. At a tier with no entry in the chain nothing is retried and no downgrade
  happens: the failure object is returned at once; and when the operation fails at Simple,
  reached from Standard, its error is thrown on with no further downgrade.
\<close>

theorem downgradeAndRetry_terminates:
  "\<exists>out s1 ev.
     downgradeAndRetry default_downgradeChain fn ctx s [] = Some (out, s1, ev) \<and>
     length ev \<le> 2 \<and>
     ((\<forall>c t. isl (fst (fn c t))) \<longrightarrow> is_failure out) \<and>
     (chain_entry default_downgradeChain (branch ctx) = None \<longrightarrow>
        out = Inr (CannotDowngrade (branch ctx)) \<and> ev = [] \<and> s1 = s) \<and>
     (branch ctx = ''Standard'' \<longrightarrow>
        (\<forall>e s2. fn (ctx\<lparr>branch := ''Simple'', downgraded := True,
                         originalBranch := Some ''Standard''\<rparr>) s = (Inl e, s2) \<longrightarrow>
           out = Inl e \<and> s1 = s2 \<and> ev = [(''Standard'', ''Simple'')]))"
proof -
  have "(branch ctx = ''Deep'' \<or> branch ctx = ''Orchestrator'' \<or> branch ctx = ''Batch'') \<or>
        branch ctx = ''Standard'' \<or> chain_entry default_downgradeChain (branch ctx) = None"
    by (simp add: chain_entry_default)
  then consider
      (top) "branch ctx = ''Deep'' \<or> branch ctx = ''Orchestrator'' \<or> branch ctx = ''Batch''"
    | (std) "branch ctx = ''Standard''"
    | (none) "chain_entry default_downgradeChain (branch ctx) = None"
    by auto
  then show ?thesis
  proof cases
    case top
    from downgrade_from_top [OF top, of fn s "[]"] top show ?thesis
      by (auto simp: chain_entry_default)
  next
    case std
    have last: "chain_entry default_downgradeChain (branch ctx) = Some ''Simple''"
               "chain_entry default_downgradeChain ''Simple'' = None"
      using std by (simp_all add: chain_entry_default)
    from downgrade_from_Standard [OF std, of fn s "[]"]
      downgrade_last_entry [OF last, of fn s "[]"] std
    show ?thesis
      by (auto simp: chain_entry_default)
  next
    case none
    from downgrade_no_entry [OF none, of fn s "[]"] none show ?thesis
      by (simp add: is_failure_def chain_entry_default split: if_splits)
  qed
qed

lemma always_fails_from_Deep:
  "downgradeAndRetry default_downgradeChain always_fails
       \<lparr>branch = ''Deep'', downgraded = False, originalBranch = None\<rparr> 0 [] =
     Some (Inl (Error ''out of memory''), 2,
           [(''Deep'', ''Standard''), (''Standard'', ''Simple'')])"
  by (simp add: downgradeAndRetry.simps chain_entry_default always_fails_def)

theorem downgradeAndRetry_terminates_witness:
  "downgradeAndRetry default_downgradeChain always_fails
       \<lparr>branch = ''Deep'', downgraded = False, originalBranch = None\<rparr> 0 [] =
     Some (Inl (Error ''out of memory''), 2,
           [(''Deep'', ''Standard''), (''Standard'', ''Simple'')]) \<and>
   length [(''Deep'', ''Standard''), (''Standard'', ''Simple'')] \<le> (2 :: nat) \<and>
   is_failure (Inl (Error ''out of memory'') :: exn + unit downgrade_result)"
  using downgradeAndRetry_terminates [of always_fails
      "\<lparr>branch = ''Deep'', downgraded = False, originalBranch = None\<rparr>" 0]
    always_fails_from_Deep
  by (auto simp: always_fails_def)

subsection \<open>DAG construction\<close>

lemma map_fst_map_entry: "map fst (AList.map_entry k f xs) = map fst xs"
  by (induction xs) auto

lemma fold_update_const_map_of:
  "map_of (fold (\<lambda>st. AList.update (f st) c) sts acc) k =
     (if k \<in> f ` set sts then Some c else map_of acc k)"
  by (induction sts arbitrary: acc) (auto simp: update_conv')

lemma fold_update_const_distinct:
  "distinct (map fst acc) \<Longrightarrow> distinct (map fst (fold (\<lambda>st. AList.update (f st) c) sts acc))"
  by (induction sts arbitrary: acc) (auto simp: distinct_update)

lemma fold_update_const_keys:
  "fst ` set (fold (\<lambda>st. AList.update (f st) c) sts acc) = fst ` set acc \<union> f ` set sts"
  by (induction sts arbitrary: acc) (auto simp: dom_update)

lemma plain_graph_map_of:
  "map_of (plain_graph sts) k = (if k \<in> ids_of sts then Some [] else None)"
  by (simp add: plain_graph_def ids_of_def fold_update_const_map_of)

lemma plain_inDegree_map_of:
  "map_of (plain_inDegree sts) k = (if k \<in> ids_of sts then Some 0 else None)"
  by (simp add: plain_inDegree_def ids_of_def fold_update_const_map_of)

lemma plain_inDegree_distinct: "distinct (map fst (plain_inDegree sts))"
  by (simp add: plain_inDegree_def fold_update_const_distinct)

lemma plain_inDegree_keys: "fst ` set (plain_inDegree sts) = ids_of sts"
  using fold_update_const_keys [of st_id 0 sts "[]"] by (simp add: plain_inDegree_def ids_of_def)

lemma fold_plain_edge_spec:
  assumes "\<And>k. (map_of g k \<noteq> None) = (k \<in> K)"
  shows "map_of (fst (fold (\<lambda>p. plain_edge (fst p) (snd p)) ps (g, d))) k =
           map_option (\<lambda>ns. ns @ map fst (filter (\<lambda>p. snd p = k) ps)) (map_of g k) \<and>
         map_of (snd (fold (\<lambda>p. plain_edge (fst p) (snd p)) ps (g, d))) k =
           map_option (\<lambda>n. n + int (length (filter (\<lambda>p. fst p = k \<and> snd p \<in> K) ps))) (map_of d k) \<and>
         map fst (snd (fold (\<lambda>p. plain_edge (fst p) (snd p)) ps (g, d))) = map fst d"
  using assms
proof (induction ps arbitrary: g d)
  case Nil
  then show ?case by (simp add: option.map_ident)
next
  case (Cons p ps)
  obtain sid dep where p: "p = (sid, dep)" by (cases p)
  show ?case
  proof (cases "map_of g dep")
    case None
    then have nk: "dep \<notin> K" using Cons.prems [of dep] by simp
    have step: "plain_edge sid dep (g, d) = (g, d)" using None by (simp add: plain_edge_def)
    from Cons.IH [of g d, OF Cons.prems] show ?thesis
      using nk None by (auto simp: p step)
  next
    case (Some ns)
    then have ink: "dep \<in> K" using Cons.prems [of dep] by simp
    let ?g = "AList.update dep (ns @ [sid]) g" and ?d = "AList.map_entry sid (\<lambda>n. n + 1) d"
    have step: "plain_edge sid dep (g, d) = (?g, ?d)" using Some by (simp add: plain_edge_def)
    have dom: "\<And>k. (map_of ?g k \<noteq> None) = (k \<in> K)"
      using Cons.prems ink by (simp add: update_conv')
    from Cons.IH [of ?g ?d, OF dom] show ?thesis
      using ink Some
      by (auto simp: p step update_conv' map_of_map_entry map_fst_map_entry
               split: option.splits)
  qed
qed

lemma count_filter_sum:
  assumes "finite K"
  shows "length (filter (\<lambda>p. fst p = n \<and> snd p \<in> K) ps) =
         (\<Sum>k\<in>K. count_list (map fst (filter (\<lambda>p. snd p = k) ps)) n)"
proof (induction ps)
  case Nil
  then show ?case by simp
next
  case (Cons p ps)
  have "(\<Sum>k\<in>K. count_list (map fst (filter (\<lambda>p. snd p = k) (p # ps))) n) =
        (\<Sum>k\<in>K. count_list (map fst (filter (\<lambda>p. snd p = k) ps)) n +
                 (if snd p = k \<and> fst p = n then 1 else 0))"
    by (rule sum.cong) auto
  also have "\<dots> = (\<Sum>k\<in>K. count_list (map fst (filter (\<lambda>p. snd p = k) ps)) n) +
                    (if snd p \<in> K \<and> fst p = n then 1 else 0)"
    using assms by (auto simp: sum.distrib sum.delta')
  finally show ?case using Cons by auto
qed

lemma visit_step:
  assumes st: "visit_state K r T s" and m: "m \<in> K"
    and bound: "\<And>n. int (count_list (T @ [m]) n) \<le> r n"
  shows "visit_state K r (T @ [m]) (visit m s)"
proof -
  obtain d q where s: "s = (d, q)" by (cases s)
  let ?d = "AList.map_entry m (\<lambda>n. n - 1) d"
  let ?T = "T @ [m]"
  have dmap: "\<And>n. n \<in> K \<Longrightarrow> map_of d n = Some (r n - int (count_list T n))"
    and dq: "distinct q"
    and old: "\<And>n. n \<in> set q \<longleftrightarrow> n \<in> K \<and> 0 < count_list T n \<and> int (count_list T n) = r n"
    using st unfolding visit_state_def s by simp_all
  have cm: "count_list ?T m = count_list T m + 1" by simp
  have co: "\<And>n. n \<noteq> m \<Longrightarrow> count_list ?T n = count_list T n" by simp
  have d': "map_of ?d n = Some (r n - int (count_list ?T n))" if "n \<in> K" for n
  proof (cases "n = m")
    case True
    then show ?thesis using dmap [OF m] by (simp add: map_of_map_entry)
  next
    case False
    then show ?thesis using dmap [OF that] by (simp add: map_of_map_entry)
  qed
  have push: "(map_of ?d m = Some 0) = (int (count_list ?T m) = r m)"
    using d' [OF m] by auto
  have notin: "m \<notin> set q"
  proof
    assume "m \<in> set q"
    then have "int (count_list T m) = r m" using old by blast
    with bound [of m] cm show False by linarith
  qed
  show ?thesis
  proof (cases "map_of ?d m = Some 0")
    case True
    then have full: "int (count_list ?T m) = r m" using push by simp
    have v: "visit m s = (?d, q @ [m])"
      using True by (simp add: visit_def s Let_def)
    have mem: "n \<in> set (q @ [m]) \<longleftrightarrow>
               n \<in> K \<and> 0 < count_list ?T n \<and> int (count_list ?T n) = r n" for n
    proof (cases "n = m")
      case True
      then show ?thesis using full m cm by simp
    next
      case False
      then show ?thesis using old [of n] co [OF False] by simp
    qed
    have "set (q @ [m]) = {n \<in> K. 0 < count_list ?T n \<and> int (count_list ?T n) = r n}"
      using mem by blast
    moreover have "distinct (q @ [m])" using dq notin by simp
    ultimately show ?thesis
      unfolding visit_state_def v using d' by simp
  next
    case False
    then have nfull: "int (count_list ?T m) \<noteq> r m" using push by simp
    have v: "visit m s = (?d, q)"
      using False by (simp add: visit_def s Let_def)
    have mem: "n \<in> set q \<longleftrightarrow>
               n \<in> K \<and> 0 < count_list ?T n \<and> int (count_list ?T n) = r n" for n
    proof (cases "n = m")
      case True
      then show ?thesis using nfull notin by simp
    next
      case False
      then show ?thesis using old [of n] co [OF False] by simp
    qed
    have "set q = {n \<in> K. 0 < count_list ?T n \<and> int (count_list ?T n) = r n}"
      using mem by blast
    then show ?thesis
      unfolding visit_state_def v using d' dq by simp
  qed
qed

lemma fold_visit_state:
  assumes "visit_state K r T s" and "set ns \<subseteq> K"
    and "\<And>n. int (count_list (T @ ns) n) \<le> r n"
  shows "visit_state K r (T @ ns) (fold visit ns s)"
  using assms
proof (induction ns arbitrary: T s)
  case Nil
  then show ?case by simp
next
  case (Cons m ns)
  have b1: "\<And>n. int (count_list (T @ [m]) n) \<le> r n"
  proof -
    fix n
    have "count_list (T @ [m]) n \<le> count_list (T @ m # ns) n" by simp
    with Cons.prems(3) [of n] show "int (count_list (T @ [m]) n) \<le> r n" by linarith
  qed
  have st1: "visit_state K r (T @ [m]) (visit m s)"
    using Cons.prems(1,2) b1 by (intro visit_step) auto
  have "visit_state K r ((T @ [m]) @ ns) (fold visit ns (visit m s))"
    using Cons.prems(2,3) by (intro Cons.IH [OF st1]) auto
  then show ?case by simp
qed

lemma fold_fold_concat: "fold (\<lambda>i. fold f (h i)) xs s = fold f (concat (map h xs)) s"
  by (induction xs arbitrary: s) auto

lemma release_group_concat:
  "release_group g grp d = fold visit (concat (map (successors g) grp)) (d, [])"
  unfolding release_group_def by (rule fold_fold_concat)

lemma count_concat_indeg:
  assumes "distinct P"
  shows "count_list (concat (map (successors g) P)) n = indeg g (set P) n"
proof -
  have "count_list (concat (map (successors g) P)) n =
        sum_list (map (\<lambda>k. count_list (successors g k) n) P)"
    unfolding count_list_concat map_map comp_def ..
  also have "\<dots> = (\<Sum>k\<in>set P. count_list (successors g k) n)"
    using assms by (rule sum_list_distinct_conv_sum_set)
  finally show ?thesis by (simp only: indeg_def)
qed

lemma indeg_union:
  "finite A \<Longrightarrow> finite B \<Longrightarrow> A \<inter> B = {} \<Longrightarrow> indeg g (A \<union> B) n = indeg g A n + indeg g B n"
  by (simp add: indeg_def sum.union_disjoint)

lemma indeg_mono: "finite B \<Longrightarrow> A \<subseteq> B \<Longrightarrow> indeg g A n \<le> indeg g B n"
  unfolding indeg_def by (rule sum_mono2) auto

lemma indeg_pos_iff: "finite S \<Longrightarrow> 0 < indeg g S n \<longleftrightarrow> (\<exists>k\<in>S. n \<in> set (successors g k))"
proof -
  assume fin: "finite S"
  have "indeg g S n = 0 \<longleftrightarrow> (\<forall>k\<in>S. count_list (successors g k) n = 0)"
    using fin by (simp add: indeg_def)
  also have "\<dots> \<longleftrightarrow> (\<forall>k\<in>S. n \<notin> set (successors g k))"
    by (simp add: count_list_0_iff)
  finally show ?thesis by auto
qed

lemma indeg_full_iff:
  assumes "finite K" "S \<subseteq> K"
  shows "indeg g S n = indeg g K n \<longleftrightarrow> (\<forall>k\<in>K. n \<in> set (successors g k) \<longrightarrow> k \<in> S)"
proof -
  have K: "K = S \<union> (K - S)" using assms by auto
  have fin: "finite S" "finite (K - S)" using assms by (auto intro: finite_subset)
  have "indeg g K n = indeg g S n + indeg g (K - S) n"
    using indeg_union [OF fin, of g n] K by auto
  then have "indeg g S n = indeg g K n \<longleftrightarrow> \<not> 0 < indeg g (K - S) n" by linarith
  also have "\<dots> \<longleftrightarrow> (\<forall>k\<in>K. n \<in> set (successors g k) \<longrightarrow> k \<in> S)"
    unfolding indeg_pos_iff [OF fin(2)] by blast
  finally show ?thesis .
qed

lemma kahn_step:
  assumes fin: "finite K" and tgt: "\<And>k. k \<in> K \<Longrightarrow> set (successors g k) \<subseteq> K"
    and inv: "kahn_inv g K P d q"
  shows "kahn_inv g K (P @ q) (fst (release_group g q d)) (snd (release_group g q d))"
proof -
  define r where "r n = int (indeg g K n) - int (indeg g (set P) n)" for n
  define T where "T = concat (map (successors g) q)"
  obtain d' q' where rel: "release_group g q d = (d', q')" by (cases "release_group g q d")
  have dPq: "distinct (P @ q)" and sub: "set (P @ q) \<subseteq> K"
    and dmap: "\<And>n. n \<in> K \<Longrightarrow> map_of d n = Some (r n)"
    and c: "\<And>n. n \<in> K \<Longrightarrow> n \<in> set (P @ q) \<longleftrightarrow> (\<forall>k\<in>K. n \<in> set (successors g k) \<longrightarrow> k \<in> set P)"
    using inv unfolding kahn_inv_def r_def by blast+
  have dq: "distinct q" and dP: "distinct P" and disj: "set P \<inter> set q = {}"
    using dPq by auto
  have finP: "finite (set P)" "finite (set q)" by simp_all
  have cT: "count_list T n = indeg g (set q) n" for n
    unfolding T_def using dq by (rule count_concat_indeg)
  have un: "indeg g (set (P @ q)) n = indeg g (set P) n + indeg g (set q) n" for n
    using indeg_union [OF finP disj] by simp
  have le: "indeg g (set (P @ q)) n \<le> indeg g K n" for n
    using fin sub by (rule indeg_mono)
  have bound: "int (count_list ([] @ T) n) \<le> r n" for n
    using un [of n] le [of n] by (simp add: cT r_def)
  have subT: "set T \<subseteq> K"
    using sub tgt by (auto simp: T_def)
  have st0: "visit_state K r [] (d, [])"
    using dmap by (simp add: visit_state_def)
  have "visit_state K r ([] @ T) (fold visit T (d, []))"
    using st0 subT bound by (rule fold_visit_state)
  then have st: "visit_state K r T (d', q')"
    using rel by (simp add: release_group_concat T_def)
  have d': "map_of d' n = Some (int (indeg g K n) - int (indeg g (set (P @ q)) n))" if "n \<in> K" for n
    using st that un [of n] by (simp add: visit_state_def cT r_def)
  have dq': "distinct q'" using st by (simp add: visit_state_def)
  have q'_iff: "n \<in> set q' \<longleftrightarrow>
      n \<in> K \<and> (\<exists>k\<in>set q. n \<in> set (successors g k)) \<and>
      (\<forall>k\<in>K. n \<in> set (successors g k) \<longrightarrow> k \<in> set (P @ q))" for n
  proof -
    have "n \<in> set q' \<longleftrightarrow> n \<in> K \<and> 0 < indeg g (set q) n \<and> int (indeg g (set q) n) = r n"
      using st by (simp add: visit_state_def cT)
    also have "\<dots> \<longleftrightarrow> n \<in> K \<and> 0 < indeg g (set q) n \<and> indeg g (set (P @ q)) n = indeg g K n"
      using un [of n] le [of n] by (auto simp: r_def)
    also have "\<dots> \<longleftrightarrow> n \<in> K \<and> (\<exists>k\<in>set q. n \<in> set (successors g k)) \<and>
      (\<forall>k\<in>K. n \<in> set (successors g k) \<longrightarrow> k \<in> set (P @ q))"
      unfolding indeg_pos_iff [OF finP(2)] indeg_full_iff [OF fin sub] ..
    finally show ?thesis .
  qed
  have c': "n \<in> set ((P @ q) @ q') \<longleftrightarrow> (\<forall>k\<in>K. n \<in> set (successors g k) \<longrightarrow> k \<in> set (P @ q))"
    if nK: "n \<in> K" for n
  proof
    assume "n \<in> set ((P @ q) @ q')"
    then consider "n \<in> set (P @ q)" | "n \<in> set q'" by auto
    then show "\<forall>k\<in>K. n \<in> set (successors g k) \<longrightarrow> k \<in> set (P @ q)"
    proof cases
      case 1
      then show ?thesis using c [OF nK] by auto
    next
      case 2
      then show ?thesis using q'_iff [of n] by blast
    qed
  next
    assume all: "\<forall>k\<in>K. n \<in> set (successors g k) \<longrightarrow> k \<in> set (P @ q)"
    show "n \<in> set ((P @ q) @ q')"
    proof (cases "\<forall>k\<in>K. n \<in> set (successors g k) \<longrightarrow> k \<in> set P")
      case True
      then show ?thesis using c [OF nK] by auto
    next
      case False
      then obtain k where "k \<in> K" "n \<in> set (successors g k)" "k \<notin> set P" by blast
      with all have "k \<in> set q" by auto
      with \<open>n \<in> set (successors g k)\<close> all nK have "n \<in> set q'"
        using q'_iff [of n] by blast
      then show ?thesis by simp
    qed
  qed
  have disj': "set (P @ q) \<inter> set q' = {}"
  proof (rule ccontr)
    assume "set (P @ q) \<inter> set q' \<noteq> {}"
    then obtain n where n1: "n \<in> set (P @ q)" and n2: "n \<in> set q'" by blast
    from n2 obtain k where nK: "n \<in> K" and k: "k \<in> set q" "n \<in> set (successors g k)"
      using q'_iff [of n] by blast
    have "k \<in> K" using k(1) sub by auto
    with c [OF nK] n1 k(2) have "k \<in> set P" by blast
    with k(1) disj show False by blast
  qed
  have "distinct ((P @ q) @ q')" using dPq dq' disj' by auto
  moreover have "set ((P @ q) @ q') \<subseteq> K" using sub q'_iff by auto
  ultimately show ?thesis
    unfolding kahn_inv_def rel fst_conv snd_conv using d' c' by blast
qed

lemma kahn_loop_correct:
  assumes fin: "finite K"
  shows "\<forall>k\<in>K. set (successors g k) \<subseteq> K \<Longrightarrow> kahn_inv g K P d q \<Longrightarrow>
    distinct (P @ concat (kahn_loop g d q)) \<and>
    set (concat (kahn_loop g d q)) \<subseteq> K \<and>
    [] \<notin> set (kahn_loop g d q) \<and>
    (\<forall>i < length (kahn_loop g d q). \<forall>n \<in> set (kahn_loop g d q ! i). \<forall>k\<in>K.
        n \<in> set (successors g k) \<longrightarrow> k \<in> set P \<union> set (concat (take i (kahn_loop g d q)))) \<and>
    (\<forall>n \<in> K - set (P @ concat (kahn_loop g d q)).
        \<exists>k \<in> K - set (P @ concat (kahn_loop g d q)). n \<in> set (successors g k))"
proof (induction g d q arbitrary: P rule: kahn_loop.induct)
  case (1 g d queue)
  show ?case
  proof (cases "queue = []")
    case True
    have c: "\<And>n. n \<in> K \<Longrightarrow> n \<in> set P \<longleftrightarrow> (\<forall>k\<in>K. n \<in> set (successors g k) \<longrightarrow> k \<in> set P)"
      and dP: "distinct P"
      using "1.prems"(2) True unfolding kahn_inv_def by auto
    have "kahn_loop g d queue = []" using True by (simp add: kahn_loop.simps)
    then show ?thesis using c dP by auto
  next
    case False
    let ?d = "fst (release_group g queue d)" and ?q = "snd (release_group g queue d)"
    let ?G = "kahn_loop g ?d ?q"
    have loop: "kahn_loop g d queue = queue # ?G"
      using False by (subst kahn_loop.simps) simp
    have tgt: "\<And>k. k \<in> K \<Longrightarrow> set (successors g k) \<subseteq> K"
      using "1.prems"(1) by blast
    have inv': "kahn_inv g K (P @ queue) ?d ?q"
      by (rule kahn_step [OF fin tgt "1.prems"(2)])
    note IH = "1.IH" [OF False "1.prems"(1) inv']
    have c: "\<And>n. n \<in> K \<Longrightarrow> n \<in> set (P @ queue) \<longleftrightarrow> (\<forall>k\<in>K. n \<in> set (successors g k) \<longrightarrow> k \<in> set P)"
      and sub: "set (P @ queue) \<subseteq> K"
      using "1.prems"(2) unfolding kahn_inv_def by blast+
    have a: "distinct (P @ concat (queue # ?G))" using IH by simp
    have b: "set (concat (queue # ?G)) \<subseteq> K" using IH sub by auto
    have e: "[] \<notin> set (queue # ?G)" using IH False by auto
    have f: "\<forall>n \<in> K - set (P @ concat (queue # ?G)).
        \<exists>k \<in> K - set (P @ concat (queue # ?G)). n \<in> set (successors g k)"
      using IH by simp
    have h: "k \<in> set P \<union> set (concat (take i (queue # ?G)))"
      if "i < length (queue # ?G)" "n \<in> set ((queue # ?G) ! i)" "k \<in> K" "n \<in> set (successors g k)"
      for i n k
    proof (cases i)
      case 0
      then have "n \<in> set queue" using that by simp
      then have "n \<in> K" "n \<in> set (P @ queue)" using sub by auto
      with c that show ?thesis by blast
    next
      case (Suc j)
      then have "j < length ?G" "n \<in> set (?G ! j)" using that by simp_all
      with IH that(3,4) have "k \<in> set (P @ queue) \<union> set (concat (take j ?G))" by blast
      then show ?thesis using Suc by auto
    qed
    show ?thesis unfolding loop using a b e f h by blast
  qed
qed

lemma built_graph:
  "map_of (fst (plain_tables sts)) k =
     (if k \<in> ids_of sts then Some (map fst (filter (\<lambda>p. snd p = k) (pairs sts))) else None)"
proof -
  have dom: "\<And>k. (map_of (plain_graph sts) k \<noteq> None) = (k \<in> ids_of sts)"
    by (simp add: plain_graph_map_of)
  from fold_plain_edge_spec [of "plain_graph sts" "ids_of sts" "pairs sts" "plain_inDegree sts" k, OF dom]
  show ?thesis
    by (simp add: plain_tables_def plain_graph_map_of)
qed

lemma built_inDegree:
  "map_of (snd (plain_tables sts)) k =
     (if k \<in> ids_of sts
      then Some (int (length (filter (\<lambda>p. fst p = k \<and> snd p \<in> ids_of sts) (pairs sts))))
      else None)"
  "map fst (snd (plain_tables sts)) = map fst (plain_inDegree sts)"
proof -
  have dom: "\<And>k. (map_of (plain_graph sts) k \<noteq> None) = (k \<in> ids_of sts)"
    by (simp add: plain_graph_map_of)
  from fold_plain_edge_spec [of "plain_graph sts" "ids_of sts" "pairs sts" "plain_inDegree sts" k, OF dom]
  show "map_of (snd (plain_tables sts)) k =
     (if k \<in> ids_of sts
      then Some (int (length (filter (\<lambda>p. fst p = k \<and> snd p \<in> ids_of sts) (pairs sts))))
      else None)"
    "map fst (snd (plain_tables sts)) = map fst (plain_inDegree sts)"
    by (simp_all add: plain_tables_def plain_inDegree_map_of)
qed

lemma in_pairs: "(n, k) \<in> set (pairs sts) \<longleftrightarrow> (\<exists>st\<in>set sts. st_id st = n \<and> k \<in> set (dependsOn st))"
  by (auto simp: pairs_def)

lemma successors_built:
  "n \<in> set (successors (fst (plain_tables sts)) k) \<longleftrightarrow> (k, n) \<in> dep_rel sts"
proof (cases "k \<in> ids_of sts")
  case True
  then have "successors (fst (plain_tables sts)) k = map fst (filter (\<lambda>p. snd p = k) (pairs sts))"
    by (simp add: successors_def built_graph)
  then have "n \<in> set (successors (fst (plain_tables sts)) k) \<longleftrightarrow> (n, k) \<in> set (pairs sts)"
    by force
  then show ?thesis using True by (simp add: in_pairs dep_rel_def)
next
  case False
  then show ?thesis by (simp add: successors_def built_graph dep_rel_def)
qed

lemma dep_rel_target: "(k, n) \<in> dep_rel sts \<Longrightarrow> n \<in> ids_of sts \<and> k \<in> ids_of sts"
  by (auto simp: dep_rel_def ids_of_def)

lemma finite_ids: "finite (ids_of sts)"
  by (simp add: ids_of_def)

lemma indeg_built:
  "indeg (fst (plain_tables sts)) (ids_of sts) n =
     length (filter (\<lambda>p. fst p = n \<and> snd p \<in> ids_of sts) (pairs sts))"
proof -
  have "indeg (fst (plain_tables sts)) (ids_of sts) n =
        (\<Sum>k\<in>ids_of sts. count_list (map fst (filter (\<lambda>p. snd p = k) (pairs sts))) n)"
    unfolding indeg_def by (rule sum.cong) (simp_all add: successors_def built_graph)
  then show ?thesis using count_filter_sum [OF finite_ids, of n sts "pairs sts"] by simp
qed

lemma set_Object_keys: "set (Object_keys d) = fst ` set d"
  by (auto simp: Object_keys_def)

lemma distinct_Object_keys: "distinct (map fst d) \<Longrightarrow> distinct (Object_keys d)"
  by (auto simp: Object_keys_def)

lemma initial_inv:
  "kahn_inv (fst (plain_tables sts)) (ids_of sts) [] (snd (plain_tables sts)) (initial_queue (snd (plain_tables sts)))"
proof -
  let ?g = "fst (plain_tables sts)" and ?d = "snd (plain_tables sts)" and ?K = "ids_of sts"
  have dk: "distinct (map fst ?d)"
    by (simp add: built_inDegree(2) plain_inDegree_distinct)
  have "set (map fst ?d) = set (map fst (plain_inDegree sts))"
    by (simp only: built_inDegree(2))
  then have keys: "fst ` set ?d = ?K"
    by (simp add: plain_inDegree_keys)
  have dmap: "map_of ?d n = Some (int (indeg ?g ?K n))" if "n \<in> ?K" for n
    using that by (simp add: built_inDegree(1) indeg_built)
  have dq: "distinct (initial_queue ?d)"
    unfolding initial_queue_def using distinct_Object_keys [OF dk] by (rule distinct_filter)
  have mem: "n \<in> set (initial_queue ?d) \<longleftrightarrow> map_of ?d n = Some 0" for n
    by (auto simp: initial_queue_def set_Object_keys dest: map_of_SomeD intro: rev_image_eqI)
  have sub: "set (initial_queue ?d) \<subseteq> ?K"
    using keys by (auto simp: initial_queue_def set_Object_keys)
  have c: "n \<in> set (initial_queue ?d) \<longleftrightarrow> (\<forall>k\<in>?K. n \<in> set (successors ?g k) \<longrightarrow> k \<in> set [])"
    if "n \<in> ?K" for n
  proof -
    have "n \<in> set (initial_queue ?d) \<longleftrightarrow> \<not> 0 < indeg ?g ?K n"
      using mem [of n] dmap [OF that] by simp
    then show ?thesis unfolding indeg_pos_iff [OF finite_ids] by simp
  qed
  show ?thesis
    unfolding kahn_inv_def using dq sub dmap c by (simp add: indeg_def)
qed

lemma groups_correct:
  fixes sts defines "G \<equiv> plain_groups sts"
  shows "distinct (concat G)"
    and "set (concat G) \<subseteq> ids_of sts"
    and "[] \<notin> set G"
    and "\<And>i n k. i < length G \<Longrightarrow> n \<in> set (G ! i) \<Longrightarrow> (k, n) \<in> dep_rel sts \<Longrightarrow>
           k \<in> set (concat (take i G))"
    and "\<And>n. n \<in> ids_of sts \<Longrightarrow> n \<notin> set (concat G) \<Longrightarrow>
           \<exists>k. k \<in> ids_of sts \<and> k \<notin> set (concat G) \<and> (k, n) \<in> dep_rel sts"
proof -
  have tgt: "\<forall>k\<in>ids_of sts. set (successors (fst (plain_tables sts)) k) \<subseteq> ids_of sts"
    using dep_rel_target by (auto simp: successors_built)
  note L = kahn_loop_correct [OF finite_ids tgt initial_inv, folded plain_groups_def G_def]
  show "distinct (concat G)" "set (concat G) \<subseteq> ids_of sts" "[] \<notin> set G"
    using L by simp_all
  show "k \<in> set (concat (take i G))"
    if "i < length G" "n \<in> set (G ! i)" "(k, n) \<in> dep_rel sts" for i n k
    using L that dep_rel_target [OF that(3)] by (auto simp: successors_built)
  have L5: "\<forall>n\<in>ids_of sts - set (concat G).
              \<exists>k\<in>ids_of sts - set (concat G). (k, n) \<in> dep_rel sts"
    using L unfolding successors_built by simp
  show "\<exists>k. k \<in> ids_of sts \<and> k \<notin> set (concat G) \<and> (k, n) \<in> dep_rel sts"
    if "n \<in> ids_of sts" "n \<notin> set (concat G)" for n
    using L5 that by blast
qed

lemma finite_dep_rel: "finite (dep_rel sts)"
proof -
  have "dep_rel sts \<subseteq> ids_of sts \<times> ids_of sts"
    using dep_rel_target by auto
  then show ?thesis by (rule finite_subset) (simp add: finite_ids)
qed

lemma groups_complete:
  assumes "acyclic (dep_rel sts)"
  shows "set (concat (plain_groups sts)) = ids_of sts"
proof (rule ccontr)
  let ?G = "plain_groups sts"
  assume "set (concat ?G) \<noteq> ids_of sts"
  with groups_correct(2) [of sts] obtain x where x: "x \<in> ids_of sts - set (concat ?G)"
    by blast
  have "wf (dep_rel sts)"
    using finite_dep_rel assms by (rule finite_acyclic_wf)
  from wfE_min [OF this x] obtain z where
    z: "z \<in> ids_of sts - set (concat ?G)"
    and zmin: "\<And>y. (y, z) \<in> dep_rel sts \<Longrightarrow> y \<notin> ids_of sts - set (concat ?G)"
    by blast
  from groups_correct(5) [of z sts] z obtain k where
    "k \<in> ids_of sts" "k \<notin> set (concat ?G)" "(k, z) \<in> dep_rel sts"
    by blast
  with zmin [of k] show False by blast
qed

lemma in_concat_nth: "x \<in> set (concat G) \<longleftrightarrow> (\<exists>j<length G. x \<in> set (G ! j))"
proof
  assume "x \<in> set (concat G)"
  then obtain xs where xs: "xs \<in> set G" "x \<in> set xs" by auto
  from xs(1) obtain j where "j < length G" "G ! j = xs"
    unfolding in_set_conv_nth by blast
  with xs(2) show "\<exists>j<length G. x \<in> set (G ! j)" by blast
next
  assume "\<exists>j<length G. x \<in> set (G ! j)"
  then obtain j where "j < length G" "x \<in> set (G ! j)" by blast
  then show "x \<in> set (concat G)" using nth_mem [of j G] by auto
qed

lemma concat_take_nth:
  assumes "x \<in> set (concat (take i G))"
  shows "\<exists>j<i. j < length G \<and> x \<in> set (G ! j)"
proof -
  from assms obtain j where j: "j < length (take i G)" "x \<in> set (take i G ! j)"
    unfolding in_concat_nth by blast
  then have "j < i" "j < length G" by simp_all
  moreover have "take i G ! j = G ! j" using \<open>j < i\<close> by simp
  ultimately show ?thesis using j(2) by auto
qed

lemma distinct_concat_index:
  assumes "distinct (concat G)" "a < b" "b < length G" "x \<in> set (G ! a)"
  shows "x \<notin> set (G ! b)"
proof
  assume xb: "x \<in> set (G ! b)"
  have G: "G = take b G @ G ! b # drop (Suc b) G"
    using assms(3) by (rule id_take_nth_drop)
  have "G ! a = take b G ! a" using assms(2) by simp
  moreover have "a < length (take b G)" using assms(2,3) by simp
  ultimately have "G ! a \<in> set (take b G)" by (metis nth_mem)
  then have xa: "x \<in> set (concat (take b G))" using assms(4) by auto
  have "distinct (concat (take b G) @ G ! b @ concat (drop (Suc b) G))"
    using assms(1) by (subst (asm) G) simp
  with xa xb show False by auto
qed

lemma groups_dependencies_earlier:
  assumes "i < length (plain_groups sts)"
    and "n \<in> set (plain_groups sts ! i)"
    and "st \<in> set sts" and "st_id st = n" and "k \<in> set (dependsOn st)"
    and "i \<le> j" and "j < length (plain_groups sts)"
  shows "k \<notin> set (plain_groups sts ! j)"
proof
  let ?G = "plain_groups sts"
  assume kj: "k \<in> set (?G ! j)"
  then have "k \<in> set (concat ?G)" using assms(7) unfolding in_concat_nth by blast
  then have "k \<in> ids_of sts" using groups_correct(2) [of sts] by blast
  then have kn: "(k, n) \<in> dep_rel sts" using assms(3,4,5) by (auto simp: dep_rel_def)
  have "k \<in> set (concat (take i ?G))"
    using assms(1,2) kn by (rule groups_correct(4))
  from concat_take_nth [OF this]
  obtain a where a: "a < i" "a < length ?G" "k \<in> set (?G ! a)"
    by blast
  have "a < j" using a(1) assms(6) by simp
  from distinct_concat_index [OF groups_correct(1) this assms(7) a(3)] kj
  show False by blast
qed

lemma buildDAG_topological:
  assumes "acyclic (dep_rel sts)"
  shows "topological_partition sts (plain_groups sts)"
  unfolding topological_partition_def
proof (intro conjI allI impI ballI)
  show "set (concat (plain_groups sts)) = ids_of sts"
    using assms by (rule groups_complete)
  show "distinct (concat (plain_groups sts))"
    by (rule groups_correct(1))
next
  fix i n st k j
  assume "i < length (plain_groups sts)"
    "n \<in> set (plain_groups sts ! i)" "st \<in> set sts" "st_id st = n"
    "k \<in> set (dependsOn st)" "i \<le> j \<and> j < length (plain_groups sts)"
  then show "k \<notin> set (plain_groups sts ! j)"
    using groups_dependencies_earlier [of i sts n st k j] by blast
qed

lemma trancl_earlier:
  assumes "(a, b) \<in> (dep_rel sts)\<^sup>+"
  shows "\<forall>i<length (plain_groups sts). b \<in> set (plain_groups sts ! i) \<longrightarrow>
           (\<exists>j<i. a \<in> set (plain_groups sts ! j))"
  using assms
proof (induction rule: trancl_induct)
  case (base y)
  show ?case
  proof (intro allI impI)
    fix i assume i: "i < length (plain_groups sts)"
      and y: "y \<in> set (plain_groups sts ! i)"
    have "a \<in> set (concat (take i (plain_groups sts)))"
      using i y base by (rule groups_correct(4))
    from concat_take_nth [OF this]
    show "\<exists>j<i. a \<in> set (plain_groups sts ! j)"
      by blast
  qed
next
  case (step y z)
  show ?case
  proof (intro allI impI)
    fix i assume i: "i < length (plain_groups sts)"
      and z: "z \<in> set (plain_groups sts ! i)"
    have "y \<in> set (concat (take i (plain_groups sts)))"
      using i z step.hyps(2) by (rule groups_correct(4))
    from concat_take_nth [OF this]
    obtain j where j: "j < i" "y \<in> set (plain_groups sts ! j)"
      by blast
    have "j < length (plain_groups sts)" using j(1) i by simp
    with step.IH j(2) obtain j' where j': "j' < j" "a \<in> set (plain_groups sts ! j')"
      by blast
    have "j' < i" using j'(1) j(1) by simp
    with j'(2) show "\<exists>j<i. a \<in> set (plain_groups sts ! j)"
      by blast
  qed
qed

lemma cyclic_not_grouped:
  assumes "(x, x) \<in> (dep_rel sts)\<^sup>+"
  shows "x \<notin> set (concat (plain_groups sts))"
proof -
  let ?G = "plain_groups sts"
  have "i < length ?G \<Longrightarrow> x \<notin> set (?G ! i)" for i
  proof (induction i rule: less_induct)
    case (less i)
    show ?case
    proof
      assume "x \<in> set (?G ! i)"
      with trancl_earlier [OF assms] less.prems obtain j where "j < i" "x \<in> set (?G ! j)"
        by blast
      with less.IH [of j] less.prems show False by simp
    qed
  qed
  then show ?thesis unfolding in_concat_nth by blast
qed

subsection \<open>The tables of \<^verbatim>\<open>buildDAG\<close>\<close>

lemma init_graph_fold:
  "''__proto__'' \<notin> st_id ` set sts \<Longrightarrow>
   fold (\<lambda>st g. if st_id st = ''__proto__'' then g\<lparr>prototype_array := Some []\<rparr>
                  else g\<lparr>own_properties := AList.update (st_id st) [] (own_properties g)\<rparr>)
     sts \<lparr>own_properties = acc, prototype_array = None\<rparr> =
   \<lparr>own_properties = fold (\<lambda>st g. AList.update (st_id st) [] g) sts acc, prototype_array = None\<rparr>"
  by (induction sts arbitrary: acc) auto

lemma init_inDegree_fold:
  "''__proto__'' \<notin> st_id ` set sts \<Longrightarrow>
   fold (\<lambda>st d. if st_id st = ''__proto__'' then d else AList.update (st_id st) 0 d) sts acc =
   fold (\<lambda>st d. AList.update (st_id st) 0 d) sts acc"
  by (induction sts arbitrary: acc) auto

lemma init_graph_plain:
  "''__proto__'' \<notin> ids_of sts \<Longrightarrow>
   init_graph sts = \<lparr>own_properties = plain_graph sts, prototype_array = None\<rparr>"
  by (simp add: init_graph_def plain_graph_def ids_of_def init_graph_fold)

lemma init_inDegree_plain:
  "''__proto__'' \<notin> ids_of sts \<Longrightarrow> init_inDegree sts = plain_inDegree sts"
  by (simp add: init_inDegree_def plain_inDegree_def ids_of_def init_inDegree_fold)

lemma forEach_append:
  "forEach f (xs @ ys) s = (case forEach f xs s of Inl e \<Rightarrow> Inl e | Inr s' \<Rightarrow> forEach f ys s')"
  by (induction xs arbitrary: s) (auto split: sum.splits)

lemma forEach_map: "forEach f (map g xs) s = forEach (\<lambda>x. f (g x)) xs s"
  by (induction xs arbitrary: s) (auto split: sum.splits)

lemma add_edges_pairs:
  "add_edges sts t = forEach (\<lambda>p. add_edge (fst p) (snd p)) (pairs sts) t"
  unfolding add_edges_def
proof (induction sts arbitrary: t)
  case Nil
  then show ?case by (simp add: pairs_def)
next
  case (Cons st sts)
  have "pairs (st # sts) = map (\<lambda>dep. (st_id st, dep)) (dependsOn st) @ pairs sts"
    by (simp add: pairs_def)
  then show ?case
    using Cons by (simp add: forEach_append forEach_map split: sum.splits)
qed

lemma add_edge_plain:
  "add_edge sid dep (\<lparr>own_properties = g, prototype_array = None\<rparr>, d) =
     (if map_of g dep = None \<and> dep \<in> set Object_prototype_names then Inl TypeError
      else Inr (\<lparr>own_properties = fst (plain_edge sid dep (g, d)), prototype_array = None\<rparr>,
                snd (plain_edge sid dep (g, d))))"
  by (simp add: add_edge_def get_property_def plain_edge_def split: option.splits)

lemma plain_edge_dom:
  "(map_of (fst (plain_edge sid dep (g, d))) k \<noteq> None) = (map_of g k \<noteq> None)"
  by (auto simp: plain_edge_def update_conv' split: option.splits)

lemma forEach_add_edge_plain:
  assumes "\<And>k. (map_of g k \<noteq> None) = (k \<in> K)"
  shows "forEach (\<lambda>p. add_edge (fst p) (snd p)) ps
           (\<lparr>own_properties = g, prototype_array = None\<rparr>, d) =
         (if \<exists>p\<in>set ps. snd p \<notin> K \<and> snd p \<in> set Object_prototype_names then Inl TypeError
          else Inr (\<lparr>own_properties = fst (fold (\<lambda>p. plain_edge (fst p) (snd p)) ps (g, d)),
                      prototype_array = None\<rparr>,
                    snd (fold (\<lambda>p. plain_edge (fst p) (snd p)) ps (g, d))))"
  using assms
proof (induction ps arbitrary: g d)
  case Nil
  then show ?case by simp
next
  case (Cons p ps)
  obtain sid dep where p: "p = (sid, dep)" by (cases p)
  obtain g' d' where t: "plain_edge sid dep (g, d) = (g', d')" by (cases "plain_edge sid dep (g, d)")
  have K: "(map_of g dep = None) = (dep \<notin> K)" using Cons.prems [of dep] by auto
  show ?case
  proof (cases "dep \<notin> K \<and> dep \<in> set Object_prototype_names")
    case True
    then show ?thesis by (simp add: p add_edge_plain K)
  next
    case False
    have dom: "\<And>k. (map_of g' k \<noteq> None) = (k \<in> K)"
      using plain_edge_dom [of sid dep g d] Cons.prems by (simp add: t)
    have "forEach (\<lambda>p. add_edge (fst p) (snd p)) (p # ps)
            (\<lparr>own_properties = g, prototype_array = None\<rparr>, d) =
          forEach (\<lambda>p. add_edge (fst p) (snd p)) ps
            (\<lparr>own_properties = g', prototype_array = None\<rparr>, d')"
      using False by (auto simp: p add_edge_plain K t)
    then show ?thesis
      using Cons.IH [of g' d', OF dom] False by (simp add: p t)
  qed
qed

lemma inherited_pairs:
  "(\<exists>p\<in>set (pairs sts). snd p \<notin> ids_of sts \<and> snd p \<in> set Object_prototype_names) =
   inherited_dependency sts"
  by (auto simp: inherited_dependency_def pairs_def)

lemma build_tables_plain:
  assumes "''__proto__'' \<notin> ids_of sts"
  shows "build_tables sts =
           (if inherited_dependency sts then Inl TypeError
            else Inr (\<lparr>own_properties = fst (plain_tables sts), prototype_array = None\<rparr>,
                      snd (plain_tables sts)))"
proof -
  have dom: "\<And>k. (map_of (plain_graph sts) k \<noteq> None) = (k \<in> ids_of sts)"
    by (simp add: plain_graph_map_of)
  show ?thesis
    unfolding build_tables_def add_edges_pairs init_graph_plain [OF assms]
      init_inDegree_plain [OF assms] forEach_add_edge_plain [OF dom] inherited_pairs
      plain_tables_def ..
qed

lemma buildDAG_plain:
  assumes "''__proto__'' \<notin> ids_of sts"
  shows "buildDAG sts =
           (if inherited_dependency sts then Inl TypeError
            else Inr \<lparr>dag_subtasks = sts,
                      dag_graph = Some \<lparr>own_properties = fst (plain_tables sts),
                                        prototype_array = None\<rparr>,
                      parallelGroups = plain_groups sts,
                      isValid = Some (plain_groups sts \<noteq> []),
                      complexity = None, totalSubtasks = None\<rparr>)"
  by (simp add: buildDAG_def build_tables_plain [OF assms] plain_groups_def Let_def)

subsection \<open>The decomposer's DAGs\<close>

lemma dep_rel_iff:
  "(k, n) \<in> dep_rel sts \<longleftrightarrow>
     k \<in> st_id ` set sts \<and> (\<exists>st\<in>set sts. st_id st = n \<and> k \<in> set (dependsOn st))"
  by (simp add: dep_rel_def ids_of_def)

lemma acyclic_by_rank:
  assumes "\<And>st k. st \<in> set sts \<Longrightarrow> k \<in> set (dependsOn st) \<Longrightarrow> k \<in> ids_of sts \<Longrightarrow>
             rank (st_id st) < (rank k :: nat)"
  shows "acyclic (dep_rel sts)"
proof (rule acyclicI_order [where f = rank])
  fix a b assume "(a, b) \<in> dep_rel sts"
  then show "rank b < rank a" using assms by (auto simp: dep_rel_def)
qed

lemma file_batch_acyclic: "acyclic (dep_rel (decomposeFileBatchTask f))"
  by (rule acyclic_by_rank [where rank = batch_rank])
     (auto simp: decomposeFileBatchTask_def Let_def new_subtask_def process_subtask_def
                 batch_rank_def)

lemma steps_acyclic: "acyclic (dep_rel decomposeStepByStepTask)"
  by (rule acyclic_by_rank [where rank = steps_rank])
     (auto simp: decomposeStepByStepTask_def new_subtask_def steps_rank_def)

lemma analysis_acyclic: "acyclic (dep_rel decomposeAnalysisTask)"
  by (rule acyclic_by_rank [where rank = analysis_rank])
     (auto simp: decomposeAnalysisTask_def new_subtask_def analysis_rank_def)

lemma generic_acyclic: "acyclic (dep_rel decomposeGenericTask)"
  by (rule acyclic_by_rank [where rank = generic_rank])
     (auto simp: decomposeGenericTask_def new_subtask_def generic_rank_def)

lemma template_acyclic: "acyclic (dep_rel (choose_template f))"
  by (simp add: choose_template_def file_batch_acyclic steps_acyclic analysis_acyclic
                generic_acyclic)

lemma listed_dependencies:
  assumes "\<And>st. st \<in> set sts \<Longrightarrow> set (dependsOn st) \<subseteq> ids_of sts"
  shows "\<not> inherited_dependency sts"
  using assms by (auto simp: inherited_dependency_def)

lemma file_batch_names:
  "''__proto__'' \<notin> ids_of (decomposeFileBatchTask f) \<and>
   \<not> inherited_dependency (decomposeFileBatchTask f)"
proof -
  define ps where
    "ps = map process_subtask [0..<min (case file_count f of None \<Rightarrow> 5 | Some n \<Rightarrow> n) 10]"
  let ?scan = "new_subtask ''scan_files'' [] 10000 [''read'', ''list_files''] (Some ''scan'')"
  let ?agg = "new_subtask ''aggregate_results'' (map st_id ps) 15000
                [''read'', ''write'', ''aggregate''] (Some ''aggregate'')"
  have keep: "filter (\<lambda>s. st_type s = Some ''process'') ps = ps"
    by (simp add: ps_def filter_map comp_def process_subtask_def new_subtask_def)
  have T: "decomposeFileBatchTask f = ?scan # ps @ [?agg]"
    by (simp add: decomposeFileBatchTask_def Let_def ps_def [symmetric] keep)
       (simp add: new_subtask_def)
  have ids: "ids_of (decomposeFileBatchTask f) =
             insert ''scan_files'' (insert ''aggregate_results'' (st_id ` set ps))"
    unfolding T by (auto simp: ids_of_def new_subtask_def)
  have pid: "st_id st \<noteq> ''__proto__'' \<and> dependsOn st = [''scan_files'']" if "st \<in> set ps" for st
    using that by (auto simp: ps_def process_subtask_def new_subtask_def)
  have 1: "''__proto__'' \<notin> ids_of (decomposeFileBatchTask f)"
    by (auto simp: decomposeFileBatchTask_def Let_def new_subtask_def process_subtask_def
                   ids_of_def)
  have "set (dependsOn st) \<subseteq> ids_of (decomposeFileBatchTask f)"
    if "st \<in> set (decomposeFileBatchTask f)" for st
  proof -
    from that consider "st = ?scan" | "st \<in> set ps" | "st = ?agg" unfolding T by auto
    then show ?thesis
    proof cases
      case 1
      then show ?thesis by (simp add: new_subtask_def)
    next
      case 2
      then show ?thesis using pid [OF 2] by (simp add: ids)
    next
      case 3
      then show ?thesis by (auto simp: new_subtask_def ids)
    qed
  qed
  then have 2: "\<not> inherited_dependency (decomposeFileBatchTask f)"
    by (rule listed_dependencies)
  from 1 2 show ?thesis ..
qed

lemma steps_names:
  "''__proto__'' \<notin> ids_of decomposeStepByStepTask \<and>
   \<not> inherited_dependency decomposeStepByStepTask"
  by (simp add: decomposeStepByStepTask_def new_subtask_def ids_of_def
                inherited_dependency_def)

lemma analysis_names:
  "''__proto__'' \<notin> ids_of decomposeAnalysisTask \<and>
   \<not> inherited_dependency decomposeAnalysisTask"
  by (simp add: decomposeAnalysisTask_def new_subtask_def ids_of_def
                inherited_dependency_def)

lemma generic_names:
  "''__proto__'' \<notin> ids_of decomposeGenericTask \<and>
   \<not> inherited_dependency decomposeGenericTask"
  by (simp add: decomposeGenericTask_def new_subtask_def ids_of_def
                inherited_dependency_def)

lemma template_names:
  "''__proto__'' \<notin> ids_of (choose_template f) \<and> \<not> inherited_dependency (choose_template f)"
  by (simp add: choose_template_def file_batch_names steps_names analysis_names generic_names)

lemma buildDAG_template:
  "buildDAG (choose_template f) =
     Inr \<lparr>dag_subtasks = choose_template f,
          dag_graph = Some \<lparr>own_properties = fst (plain_tables (choose_template f)),
                            prototype_array = None\<rparr>,
          parallelGroups = plain_groups (choose_template f),
          isValid = Some (plain_groups (choose_template f) \<noteq> []),
          complexity = None, totalSubtasks = None\<rparr>"
  using template_names [of f] by (simp add: buildDAG_plain)

lemmas object_eval =
  Object_keys_def is_array_index_def is_digit_def index_value_def digit_value_def
  Object_prototype_names_def Array_prototype_names_def get_property_def

lemmas dag_eval =
  buildDAG_def build_tables_def init_graph_def init_inDegree_def add_edges_def add_edge_def
  initial_queue_def release_group_def successors_def visit_def kahn_loop.simps Let_def
  new_subtask_def AList.update.simps AList.map_entry.simps object_eval

lemma show_digit: "n < 10 \<Longrightarrow> show_nat n = [''0123456789'' ! n]"
  by (simp add: show_nat.simps digit_char_def)

lemma batch_of_three_template:
  "choose_template batch_of_three =
     [new_subtask ''scan_files'' [] 10000 [''read'', ''list_files''] (Some ''scan''),
      process_subtask 0, process_subtask 1, process_subtask 2,
      new_subtask ''aggregate_results''
        [''process_file_0'', ''process_file_1'', ''process_file_2''] 15000
        [''read'', ''write'', ''aggregate''] (Some ''aggregate'')]"
  by (simp add: choose_template_def batch_of_three_def decomposeFileBatchTask_def Let_def
                upt_rec process_subtask_def new_subtask_def show_digit)

lemma batch_of_three_groups:
  "map_sum id parallelGroups (decompose 20 batch_of_three) =
     Inr [[''scan_files''], [''process_file_0'', ''process_file_1'', ''process_file_2''],
          [''aggregate_results'']]"
proof -
  have "shouldDecompose (analyzeComplexity 20 batch_of_three)"
    by (simp add: analyzeComplexity_def batch_of_three_def)
  then have "map_sum id parallelGroups (decompose 20 batch_of_three) =
             map_sum id parallelGroups (buildDAG (choose_template batch_of_three))"
    by (simp add: decompose_def Let_def split: sum.splits)
  also have "\<dots> = Inr [[''scan_files''],
                         [''process_file_0'', ''process_file_1'', ''process_file_2''],
                         [''aggregate_results'']]"
    unfolding batch_of_three_template by (simp add: dag_eval process_subtask_def show_digit)
  finally show ?thesis .
qed

text \<open>
  Claim C7. For every DAG that the decomposer produces (every outcome of the text analysis and
  every subtask cap), \<^verbatim>\<open>decompose\<close> returns the DAG without an exception, and its
  parallel groups are a valid topological partition: every subtask id is in exactly one
  group, and no id in the \<^verbatim>\<open>dependsOn\<close> of a subtask is in the group of that subtask or
  in a later group. All the decomposer's templates are acyclic, and none of their ids or
  dependencies names an inherited property.
\<close>

theorem decompose_topological:
  "case decompose maxSubtasks f of
     Inl e \<Rightarrow> False
   | Inr d \<Rightarrow> topological_partition (dag_subtasks d) (parallelGroups d)"
proof (cases "shouldDecompose (analyzeComplexity maxSubtasks f)")
  case True
  then show ?thesis
    using buildDAG_topological [OF template_acyclic, of f]
    by (simp add: decompose_def Let_def buildDAG_template)
next
  case False
  then show ?thesis
    by (simp add: decompose_def Let_def topological_partition_def ids_of_def)
qed

theorem decompose_topological_witness:
  "map_sum id parallelGroups (decompose 20 batch_of_three) =
     Inr [[''scan_files''], [''process_file_0'', ''process_file_1'', ''process_file_2''],
          [''aggregate_results'']] \<and>
   map_sum id (\<lambda>d. topological_partition (dag_subtasks d)
     [[''scan_files''], [''process_file_0'', ''process_file_1'', ''process_file_2''],
      [''aggregate_results'']]) (decompose 20 batch_of_three) = Inr True"
  using decompose_topological [of 20 batch_of_three] batch_of_three_groups
  by (auto split: sum.splits)

subsection \<open>Cyclic input\<close>

lemma cyclic_subtasks_dag:
  "buildDAG cyclic_subtasks =
     Inr \<lparr>dag_subtasks = cyclic_subtasks,
          dag_graph = Some \<lparr>own_properties = [(''a'', [''b'']), (''b'', [''a'']), (''c'', [])],
                            prototype_array = None\<rparr>,
          parallelGroups = [[''c'']], isValid = Some True,
          complexity = None, totalSubtasks = None\<rparr>"
  by (simp add: cyclic_subtasks_def dag_eval)

lemma cyclic_subtasks_cycle: "(''a'', ''a'') \<in> (dep_rel cyclic_subtasks)\<^sup>+"
proof -
  have "(''a'', ''b'') \<in> dep_rel cyclic_subtasks" "(''b'', ''a'') \<in> dep_rel cyclic_subtasks"
    by (simp_all add: dep_rel_iff cyclic_subtasks_def new_subtask_def)
  then show ?thesis by (rule trancl_into_trancl [OF r_into_trancl])
qed

lemma cyclic_constructor_cycle: "(''a'', ''a'') \<in> (dep_rel cyclic_constructor)\<^sup>+"
proof -
  have "(''a'', ''b'') \<in> dep_rel cyclic_constructor" "(''b'', ''a'') \<in> dep_rel cyclic_constructor"
    by (simp_all add: dep_rel_iff cyclic_constructor_def new_subtask_def)
  then show ?thesis by (rule trancl_into_trancl [OF r_into_trancl])
qed

lemma cyclic_constructor_throws: "buildDAG cyclic_constructor = Inl TypeError"
  by (simp add: cyclic_constructor_def dag_eval)

lemma kahn_loop_Nil_iff: "kahn_loop g d q = [] \<longleftrightarrow> q = []"
  by (subst kahn_loop.simps) simp

lemma initial_queue_iff:
  "initial_queue (snd (plain_tables sts)) \<noteq> [] \<longleftrightarrow>
     (\<exists>n\<in>ids_of sts. \<forall>k. (k, n) \<notin> dep_rel sts)"
proof -
  let ?q = "initial_queue (snd (plain_tables sts))"
  have sub: "set ?q \<subseteq> ids_of sts"
    and c: "\<And>n. n \<in> ids_of sts \<Longrightarrow>
             n \<in> set ?q \<longleftrightarrow>
             (\<forall>k\<in>ids_of sts. n \<in> set (successors (fst (plain_tables sts)) k) \<longrightarrow> k \<in> set [])"
    using initial_inv [of sts] unfolding kahn_inv_def by auto
  have c': "n \<in> set ?q \<longleftrightarrow> (\<forall>k. (k, n) \<notin> dep_rel sts)" if "n \<in> ids_of sts" for n
    using c [OF that] dep_rel_target [of _ n sts] unfolding successors_built by auto
  have "?q \<noteq> [] \<longleftrightarrow> (\<exists>n. n \<in> set ?q)" by (cases ?q) auto
  also have "\<dots> \<longleftrightarrow> (\<exists>n\<in>ids_of sts. \<forall>k. (k, n) \<notin> dep_rel sts)"
    using sub c' by blast
  finally show ?thesis .
qed

text \<open>
  Claim C1, as the code has it. The claim as stated fails: \<^verbatim>\<open>buildDAG\<close> has no test for
  a cycle and no cycle error. For the list below, where \<open>a\<close> and \<open>b\<close> wait for each
  other, it throws nothing and returns a DAG marked valid whose only group is the independent
  subtask \<open>c\<close>.
\<close>

theorem buildDAG_accepts_cycle:
  "(''a'', ''a'') \<in> (dep_rel cyclic_subtasks)\<^sup>+ \<and>
   buildDAG cyclic_subtasks =
     Inr \<lparr>dag_subtasks = cyclic_subtasks,
          dag_graph = Some \<lparr>own_properties = [(''a'', [''b'']), (''b'', [''a'']), (''c'', [])],
                            prototype_array = None\<rparr>,
          parallelGroups = [[''c'']], isValid = Some True,
          complexity = None, totalSubtasks = None\<rparr>"
  using cyclic_subtasks_cycle cyclic_subtasks_dag by simp

text \<open>
  Claim C1, amended. Take any subtask list whose dependency edges contain a cycle and in which
  no subtask has the id \<^verbatim>\<open>__proto__\<close>. \<^verbatim>\<open>buildDAG\<close> never reports the cycle. When
  some dependency that is not a subtask id names a member of \<^verbatim>\<open>Object.prototype\<close>
  (\<^verbatim>\<open>constructor\<close>, \<^verbatim>\<open>toString\<close>, ...), the edge loop throws a TypeError. In every
  other case \<^verbatim>\<open>buildDAG\<close> returns a DAG object: every subtask on a cycle is left out of
  all parallel groups, so the groups do not cover the subtasks; \<^verbatim>\<open>isValid\<close> only says
  whether there is a group at all, which is the case exactly when some subtask has no
  dependency among the subtasks.
\<close>

theorem buildDAG_omits_cycles:
  assumes "(x, x) \<in> (dep_rel sts)\<^sup>+" and "''__proto__'' \<notin> ids_of sts"
  shows "case buildDAG sts of
           Inl e \<Rightarrow> e = TypeError \<and> inherited_dependency sts
         | Inr d \<Rightarrow>
             \<not> inherited_dependency sts \<and>
             x \<in> ids_of sts \<and>
             x \<notin> set (concat (parallelGroups d)) \<and>
             isValid d = Some (parallelGroups d \<noteq> []) \<and>
             (parallelGroups d \<noteq> [] \<longleftrightarrow> (\<exists>n\<in>ids_of sts. \<forall>k. (k, n) \<notin> dep_rel sts))"
proof (cases "inherited_dependency sts")
  case True
  then show ?thesis by (simp add: buildDAG_plain [OF assms(2)])
next
  case False
  from assms(1) obtain z where "(x, z) \<in> dep_rel sts" by (auto dest: tranclD)
  then have 1: "x \<in> ids_of sts" by (auto dest: dep_rel_target)
  have 2: "x \<notin> set (concat (plain_groups sts))"
    using assms(1) by (rule cyclic_not_grouped)
  have 4: "plain_groups sts \<noteq> [] \<longleftrightarrow> (\<exists>n\<in>ids_of sts. \<forall>k. (k, n) \<notin> dep_rel sts)"
    unfolding plain_groups_def kahn_loop_Nil_iff by (rule initial_queue_iff)
  from False 1 2 4 show ?thesis by (simp add: buildDAG_plain [OF assms(2)])
qed

theorem buildDAG_omits_cycles_witness:
  "(''a'', ''a'') \<in> (dep_rel cyclic_subtasks)\<^sup>+ \<and>
   ''__proto__'' \<notin> ids_of cyclic_subtasks \<and>
   \<not> inherited_dependency cyclic_subtasks \<and>
   ''a'' \<in> ids_of cyclic_subtasks \<and>
   map_sum id (\<lambda>d. ''a'' \<in> set (concat (parallelGroups d))) (buildDAG cyclic_subtasks) =
     Inr False \<and>
   map_sum id isValid (buildDAG cyclic_subtasks) = Inr (Some True) \<and>
   (''a'', ''a'') \<in> (dep_rel cyclic_constructor)\<^sup>+ \<and>
   ''__proto__'' \<notin> ids_of cyclic_constructor \<and>
   inherited_dependency cyclic_constructor \<and>
   buildDAG cyclic_constructor = Inl TypeError"
proof -
  have n1: "''__proto__'' \<notin> ids_of cyclic_subtasks"
    by (simp add: cyclic_subtasks_def new_subtask_def ids_of_def)
  have n2: "''__proto__'' \<notin> ids_of cyclic_constructor"
    by (simp add: cyclic_constructor_def new_subtask_def ids_of_def)
  show ?thesis
    using buildDAG_omits_cycles [OF cyclic_subtasks_cycle n1]
      buildDAG_omits_cycles [OF cyclic_constructor_cycle n2]
      cyclic_subtasks_cycle cyclic_constructor_cycle n1 n2
      cyclic_subtasks_dag cyclic_constructor_throws
    by simp
qed

end
